theory Spec2Isabelle
  imports Complex_Main "HOL-Library.Log_Nat"
begin

section \<open>Python values used by the scripts\<close>

text \<open>
  A Python \<open>str\<close> is modelled as a \<open>string\<close>: a list of characters, each character
  being one code point below 256. An attribute value delivered by the HTML tokenizer is a
  \<open>str\<close> or \<open>None\<close>, hence a \<open>string option\<close>. The exceptions that the indexing
  operations of the scripts can raise are values of \<open>py_error\<close>.
\<close>

datatype py_error = IndexError | KeyError

definition py_isspace :: "char \<Rightarrow> bool" where
  \<comment> \<open>\<open>str.isspace\<close> on one code point below 256: TAB..CR, FS..US, space, NEL, NBSP.\<close>
  "py_isspace c =
     (let n = (of_char c :: nat)
      in (9 \<le> n \<and> n \<le> 13) \<or> (28 \<le> n \<and> n \<le> 32) \<or> n = 133 \<or> n = 160)"

definition py_lower_char :: "char \<Rightarrow> char" where
  \<comment> \<open>\<open>str.lower\<close> on one code point below 256: A..Z and the Latin-1 capitals.\<close>
  "py_lower_char c =
     (let n = (of_char c :: nat)
      in if (65 \<le> n \<and> n \<le> 90) \<or> (192 \<le> n \<and> n \<le> 222 \<and> n \<noteq> 215)
         then char_of (n + 32) else c)"

definition py_lower :: "string \<Rightarrow> string" where
  "py_lower s = map py_lower_char s"

definition py_strip :: "string \<Rightarrow> string" where
  \<comment> \<open>\<open>s.strip()\<close>: leading and trailing whitespace removed.\<close>
  "py_strip s = rev (dropWhile py_isspace (rev (dropWhile py_isspace s)))"

fun py_split_from :: "string \<Rightarrow> string \<Rightarrow> string list" where
  \<comment> \<open>\<open>s.split()\<close> with the word being read as first argument.\<close>
  "py_split_from cur [] = (if cur = [] then [] else [cur])"
| "py_split_from cur (c # cs) =
     (if py_isspace c
      then (if cur = [] then py_split_from [] cs else cur # py_split_from [] cs)
      else py_split_from (cur @ [c]) cs)"

definition py_split :: "string \<Rightarrow> string list" where
  "py_split s = py_split_from [] s"

fun py_in :: "string \<Rightarrow> string \<Rightarrow> bool" where
  \<comment> \<open>\<open>needle in hay\<close> for two strings: a contiguous occurrence.\<close>
  "py_in needle [] = (needle = [])"
| "py_in needle (c # cs) = (take (length needle) (c # cs) = needle \<or> py_in needle cs)"

definition py_startswith :: "string \<Rightarrow> string \<Rightarrow> bool" where
  "py_startswith s p = (take (length p) s = p)"

definition py_endswith :: "string \<Rightarrow> string \<Rightarrow> bool" where
  "py_endswith s e = (length e \<le> length s \<and> drop (length s - length e) s = e)"

fun py_join :: "string \<Rightarrow> string list \<Rightarrow> string" where
  \<comment> \<open>\<open>sep.join(xs)\<close>.\<close>
  "py_join sep [] = []"
| "py_join sep [x] = x"
| "py_join sep (x # y # r) = x @ sep @ py_join sep (y # r)"

definition path_name :: "string \<Rightarrow> string" where
  \<comment> \<open>\<open>PurePath.name\<close>: the final component of a path without a trailing slash.\<close>
  "path_name p = rev (takeWhile (\<lambda>c. c \<noteq> CHR ''/'') (rev p))"

definition name_suffix :: "string \<Rightarrow> string" where
  \<comment> \<open>\<open>PurePath.suffix\<close> of a final component: with \<open>i\<close> the index of its last dot, the
      text from \<open>i\<close> on when \<open>0 < i < len(name) - 1\<close>, and the empty string otherwise.\<close>
  "name_suffix name =
     (let after = takeWhile (\<lambda>c. c \<noteq> CHR ''.'') (rev name)
      in if CHR ''.'' \<in> set name \<and> after \<noteq> [] \<and> length after + 1 < length name
         then CHR ''.'' # rev after else [])"

definition truthy :: "string option \<Rightarrow> bool" where
  \<comment> \<open>Truth value of a \<open>str\<close> or \<open>None\<close>.\<close>
  "truthy v = (case v of None \<Rightarrow> False | Some s \<Rightarrow> s \<noteq> [])"

subsection \<open>Dictionaries and counters\<close>

type_synonym attrs = "(string \<times> string option) list"

definition attrs_dict :: "attrs \<Rightarrow> (string \<rightharpoonup> string option)" where
  \<comment> \<open>\<open>{k: v for k, v in attrs}\<close>: the last pair of a repeated key wins.\<close>
  "attrs_dict attrs = map_of (rev attrs)"

definition dict_get :: "(string \<rightharpoonup> string option) \<Rightarrow> string \<Rightarrow> string option" where
  \<comment> \<open>\<open>d.get(k)\<close>: \<open>None\<close> for a missing key and for a key whose value is \<open>None\<close>.\<close>
  "dict_get d k = (case d k of None \<Rightarrow> None | Some v \<Rightarrow> v)"

definition dict_get_or :: "(string \<rightharpoonup> string option) \<Rightarrow> string \<Rightarrow> string \<Rightarrow> string option" where
  \<comment> \<open>\<open>d.get(k, dflt)\<close>: the default only for a missing key.\<close>
  "dict_get_or d k dflt = (case d k of None \<Rightarrow> Some dflt | Some v \<Rightarrow> v)"

type_synonym counter = "(string \<times> nat) list"

fun counter_inc :: "counter \<Rightarrow> string \<Rightarrow> counter" where
  \<comment> \<open>\<open>c[k] += 1\<close> on a \<open>Counter\<close>, which keeps its keys in insertion order.\<close>
  "counter_inc [] k = [(k, 1)]"
| "counter_inc ((k', n) # r) k =
     (if k' = k then (k', n + 1) # r else (k', n) # counter_inc r k)"

definition counter_get :: "counter \<Rightarrow> string \<Rightarrow> nat" where
  \<comment> \<open>\<open>c[k]\<close> on a \<open>Counter\<close>: zero for a missing key.\<close>
  "counter_get c k = (case map_of c k of None \<Rightarrow> 0 | Some n \<Rightarrow> n)"

definition most_common :: "counter \<Rightarrow> counter" where
  \<comment> \<open>\<open>c.most_common()\<close>: by count, largest first, equal counts in insertion order.\<close>
  "most_common c = sort_key (\<lambda>kv. - int (snd kv)) c"

definition most_common_n :: "nat \<Rightarrow> counter \<Rightarrow> counter" where
  "most_common_n n c = take n (most_common c)"

section \<open>The HTML inspector (inspect_html.py)\<close>

definition SEMANTIC_TAGS :: "string set" where
  "SEMANTIC_TAGS = {''header'', ''main'', ''section'', ''footer'', ''nav'', ''article'',
     ''aside'', ''form''}"

definition INTERACTIVE_TAGS :: "string set" where
  "INTERACTIVE_TAGS = {''button'', ''a'', ''input'', ''select'', ''textarea'', ''summary''}"

record interactive =
  i_tag :: string
  i_id :: "string option"
  i_class :: "string option"
  i_role :: "string option"

record root_child =
  rc_tag :: string
  rc_id :: "string option"
  rc_class :: "string option"

record inspector =
  tag_counter :: counter
  class_counter :: counter
  semantic_sections :: counter
  interactive_elements :: "interactive list"
  images :: "string list"
  stylesheets :: "string list"
  scripts :: "string list"
  inline_styles :: "string list"
  style_blocks :: "string list"
  in_style :: bool
  style_buffer :: "string list"
  stack :: "string list"
  root_children :: "root_child list"

definition init_inspector :: inspector where
  "init_inspector = \<lparr> tag_counter = [], class_counter = [], semantic_sections = [],
     interactive_elements = [], images = [], stylesheets = [], scripts = [],
     inline_styles = [], style_blocks = [], in_style = False, style_buffer = [],
     stack = [], root_children = [] \<rparr>"

definition is_interactive :: "string \<Rightarrow> attrs \<Rightarrow> bool" where
  \<comment> \<open>The condition of the fourth step of \<open>handle_starttag\<close>.\<close>
  "is_interactive tag attrs =
     (tag \<in> INTERACTIVE_TAGS \<or> truthy (dict_get (attrs_dict attrs) ''onclick'')
      \<or> dict_get (attrs_dict attrs) ''role'' = Some ''button'')"

definition count_classes :: "inspector \<Rightarrow> attrs \<Rightarrow> inspector" where
  "count_classes s attrs =
     (case dict_get (attrs_dict attrs) ''class'' of
        None \<Rightarrow> s
      | Some v \<Rightarrow> if v = [] then s
                  else s\<lparr>class_counter := foldl counter_inc (class_counter s) (py_split v)\<rparr>)"

definition count_semantic :: "inspector \<Rightarrow> string \<Rightarrow> inspector" where
  "count_semantic s tag =
     (if tag \<in> SEMANTIC_TAGS
      then s\<lparr>semantic_sections := counter_inc (semantic_sections s) tag\<rparr> else s)"

definition record_interactive :: "inspector \<Rightarrow> string \<Rightarrow> attrs \<Rightarrow> inspector" where
  "record_interactive s tag attrs =
     (if is_interactive tag attrs
      then s\<lparr>interactive_elements := interactive_elements s @
             [\<lparr> i_tag = tag,
                i_id = dict_get_or (attrs_dict attrs) ''id'' [],
                i_class = dict_get_or (attrs_dict attrs) ''class'' [],
                i_role = dict_get_or (attrs_dict attrs) ''role'' [] \<rparr>]\<rparr>
      else s)"

definition record_assets :: "inspector \<Rightarrow> string \<Rightarrow> attrs \<Rightarrow> inspector" where
  \<comment> \<open>\<open>d.get(k)\<close> being true, \<open>d[k]\<close> is that same non-empty string.\<close>
  "record_assets s tag attrs =
     (let d = attrs_dict attrs;
          s1 = (case dict_get d ''src'' of
                  None \<Rightarrow> s
                | Some v \<Rightarrow> if tag = ''img'' \<and> v \<noteq> [] then s\<lparr>images := images s @ [v]\<rparr> else s);
          s2 = (case dict_get d ''href'' of
                  None \<Rightarrow> s1
                | Some h \<Rightarrow>
                    if tag = ''link'' \<and> h \<noteq> []
                    then (let rel = py_lower (case dict_get d ''rel'' of
                                                None \<Rightarrow> [] | Some r \<Rightarrow> r)
                          in if py_in ''stylesheet'' rel
                             then s1\<lparr>stylesheets := stylesheets s1 @ [h]\<rparr> else s1)
                    else s1)
      in (case dict_get d ''src'' of
            None \<Rightarrow> s2
          | Some v \<Rightarrow> if tag = ''script'' \<and> v \<noteq> [] then s2\<lparr>scripts := scripts s2 @ [v]\<rparr> else s2))"

definition record_inline_style :: "inspector \<Rightarrow> attrs \<Rightarrow> inspector" where
  "record_inline_style s attrs =
     (case dict_get (attrs_dict attrs) ''style'' of
        None \<Rightarrow> s
      | Some v \<Rightarrow> if v = [] then s else s\<lparr>inline_styles := inline_styles s @ [v]\<rparr>)"

definition record_root_child :: "inspector \<Rightarrow> string \<Rightarrow> attrs \<Rightarrow> inspector" where
  "record_root_child s tag attrs =
     (let parent = (if stack s \<noteq> [] then last (stack s) else [])
      in if parent = ''body'' \<and> length (root_children s) < 30
         then s\<lparr>root_children := root_children s @
                [\<lparr> rc_tag = tag,
                   rc_id = dict_get_or (attrs_dict attrs) ''id'' [],
                   rc_class = dict_get_or (attrs_dict attrs) ''class'' [] \<rparr>]\<rparr>
         else s)"

definition open_style :: "inspector \<Rightarrow> string \<Rightarrow> inspector" where
  "open_style s tag = (if tag = ''style'' then s\<lparr>in_style := True, style_buffer := []\<rparr> else s)"

definition handle_starttag :: "inspector \<Rightarrow> string \<Rightarrow> attrs \<Rightarrow> inspector" where
  "handle_starttag s tag attrs =
     (let s1 = s\<lparr>tag_counter := counter_inc (tag_counter s) tag\<rparr>;
          s2 = count_classes s1 attrs;
          s3 = count_semantic s2 tag;
          s4 = record_interactive s3 tag attrs;
          s5 = record_assets s4 tag attrs;
          s6 = record_inline_style s5 attrs;
          s7 = record_root_child s6 tag attrs;
          s8 = open_style s7 tag
      in s8\<lparr>stack := stack s8 @ [tag]\<rparr>)"

definition handle_startendtag :: "inspector \<Rightarrow> string \<Rightarrow> attrs \<Rightarrow> inspector" where
  "handle_startendtag s tag attrs =
     (let s1 = handle_starttag s tag attrs
      in if stack s1 \<noteq> [] \<and> last (stack s1) = tag
         then s1\<lparr>stack := butlast (stack s1)\<rparr> else s1)"

definition close_style :: "inspector \<Rightarrow> string \<Rightarrow> inspector" where
  "close_style s tag =
     (if tag = ''style'' \<and> in_style s
      then (let text = py_strip (concat (style_buffer s));
                s1 = s\<lparr>in_style := False\<rparr>;
                s2 = (if text \<noteq> [] then s1\<lparr>style_blocks := style_blocks s1 @ [text]\<rparr> else s1)
            in s2\<lparr>style_buffer := []\<rparr>)
      else s)"

definition list_item :: "'a list \<Rightarrow> nat \<Rightarrow> py_error + 'a" where
  \<comment> \<open>\<open>xs[i]\<close> for \<open>i \<ge> 0\<close>.\<close>
  "list_item xs i = (if i < length xs then Inr (xs ! i) else Inl IndexError)"

definition list_del :: "'a list \<Rightarrow> nat \<Rightarrow> py_error + 'a list" where
  \<comment> \<open>\<open>del xs[i]\<close> for \<open>i \<ge> 0\<close>.\<close>
  "list_del xs i = (if i < length xs then Inr (take i xs @ drop (Suc i) xs) else Inl IndexError)"

fun close_loop :: "nat \<Rightarrow> string \<Rightarrow> string list \<Rightarrow> py_error + string list" where
  \<comment> \<open>The loop of \<open>handle_endtag\<close>; \<open>close_loop n\<close> has the indices \<open>n - 1, ..., 0\<close> left
      to visit.\<close>
  "close_loop 0 tag st = Inr st"
| "close_loop (Suc idx) tag st =
     (case list_item st idx of
        Inl e \<Rightarrow> Inl e
      | Inr x \<Rightarrow> if x = tag then list_del st idx else close_loop idx tag st)"

definition handle_endtag :: "inspector \<Rightarrow> string \<Rightarrow> py_error + inspector" where
  "handle_endtag s tag =
     (let s1 = close_style s tag
      in case close_loop (length (stack s1)) tag (stack s1) of
           Inl e \<Rightarrow> Inl e
         | Inr st \<Rightarrow> Inr (s1\<lparr>stack := st\<rparr>))"

definition handle_data :: "inspector \<Rightarrow> string \<Rightarrow> inspector" where
  "handle_data s d = (if in_style s then s\<lparr>style_buffer := style_buffer s @ [d]\<rparr> else s)"

text \<open>
  The tokenizer of the standard library turns the HTML text into a sequence of handler
  calls; \<open>feed\<close> runs the handlers of the inspector over that sequence and stops at the
  first exception.
\<close>

datatype event =
  StartTag string attrs
  | StartEndTag string attrs
  | EndTag string
  | Data string

fun handle_event :: "inspector \<Rightarrow> event \<Rightarrow> py_error + inspector" where
  "handle_event s (StartTag tag attrs) = Inr (handle_starttag s tag attrs)"
| "handle_event s (StartEndTag tag attrs) = Inr (handle_startendtag s tag attrs)"
| "handle_event s (EndTag tag) = handle_endtag s tag"
| "handle_event s (Data d) = Inr (handle_data s d)"

fun feed :: "inspector \<Rightarrow> event list \<Rightarrow> py_error + inspector" where
  "feed s [] = Inr s"
| "feed s (e # es) = (case handle_event s e of Inl err \<Rightarrow> Inl err | Inr s' \<Rightarrow> feed s' es)"

fun remove_innermost :: "string \<Rightarrow> string list \<Rightarrow> string list" where
  \<comment> \<open>The last (innermost) occurrence of a tag name removed, if there is one.\<close>
  "remove_innermost tag [] = []"
| "remove_innermost tag (x # xs) =
     (if tag \<in> set xs then x # remove_innermost tag xs
      else if x = tag then xs else x # xs)"

section \<open>Design tokens (inspect_html.py)\<close>

fun unique_loop :: "nat \<Rightarrow> string set \<Rightarrow> string list \<Rightarrow> string list \<Rightarrow> string list" where
  \<comment> \<open>The loop of \<open>unique_limited\<close> with its \<open>seen\<close> and \<open>result\<close>.\<close>
  "unique_loop limit seen result [] = result"
| "unique_loop limit seen result (item # items) =
     (let normalized = py_strip item
      in if normalized = [] then unique_loop limit seen result items
         else if normalized \<in> seen then unique_loop limit seen result items
         else (let result' = result @ [normalized]
               in if limit \<le> length result' then result'
                  else unique_loop limit (insert normalized seen) result' items))"

definition unique_limited :: "string list \<Rightarrow> nat \<Rightarrow> string list" where
  "unique_limited items limit = unique_loop limit {} [] items"

subsection \<open>The regular expressions of the standard library\<close>

text \<open>
  The patterns of \<open>extract_tokens\<close> use literals, character classes, quantifiers on a
  single character class, alternation, one capturing group and the word boundary. A
  position in the text is the character before it (if any) and the text that remains.
  \<open>rx_match\<close> lists the ways a pattern matches at a position in the order in which the
  backtracking matcher tries them (quantifiers are greedy, the left alternative comes
  first); each comes with the text of the capturing group, if the group took part.
\<close>

datatype rx =
  Sym "char \<Rightarrow> bool"
  | Seq rx rx
  | Alt rx rx
  | Rep nat "nat option" "char \<Rightarrow> bool"
  | Grp rx
  | WordB

type_synonym pos = "char option \<times> string"

definition is_word :: "char \<Rightarrow> bool" where
  \<comment> \<open>\<open>\w\<close> on one code point below 256: alphanumeric or the underscore.\<close>
  "is_word c =
     (let n = (of_char c :: nat)
      in (48 \<le> n \<and> n \<le> 57) \<or> (65 \<le> n \<and> n \<le> 90) \<or> n = 95 \<or> (97 \<le> n \<and> n \<le> 122)
         \<or> n = 170 \<or> n = 178 \<or> n = 179 \<or> n = 181 \<or> n = 185 \<or> n = 186
         \<or> (188 \<le> n \<and> n \<le> 190) \<or> (192 \<le> n \<and> n \<le> 214) \<or> (216 \<le> n \<and> n \<le> 246)
         \<or> (248 \<le> n \<and> n \<le> 255))"

definition word_before :: "pos \<Rightarrow> bool" where
  "word_before p = (case fst p of None \<Rightarrow> False | Some c \<Rightarrow> is_word c)"

definition word_after :: "pos \<Rightarrow> bool" where
  "word_after p = (case snd p of [] \<Rightarrow> False | c # _ \<Rightarrow> is_word c)"

definition advance :: "nat \<Rightarrow> pos \<Rightarrow> pos" where
  \<comment> \<open>The position \<open>j\<close> characters further on.\<close>
  "advance j p = (if j = 0 then p else (Some (snd p ! (j - 1)), drop j (snd p)))"

fun rep_counts :: "nat \<Rightarrow> nat \<Rightarrow> nat list" where
  \<comment> \<open>The repetition counts from \<open>m\<close> down to \<open>lo\<close>.\<close>
  "rep_counts lo 0 = (if lo = 0 then [0] else [])"
| "rep_counts lo (Suc m) = (if lo \<le> Suc m then Suc m # rep_counts lo m else [])"

definition matched_text :: "pos \<Rightarrow> pos \<Rightarrow> string" where
  \<comment> \<open>The text between a position and a later one.\<close>
  "matched_text p p' = take (length (snd p) - length (snd p')) (snd p)"

fun rx_match :: "rx \<Rightarrow> pos \<Rightarrow> (pos \<times> string option) list" where
  "rx_match (Sym f) p =
     (case snd p of [] \<Rightarrow> [] | c # cs \<Rightarrow> if f c then [((Some c, cs), None)] else [])"
| "rx_match (Seq a b) p =
     concat (map (\<lambda>r1. map (\<lambda>r2. (fst r2, case snd r2 of None \<Rightarrow> snd r1 | Some g \<Rightarrow> Some g))
                             (rx_match b (fst r1)))
                 (rx_match a p))"
| "rx_match (Alt a b) p = rx_match a p @ rx_match b p"
| "rx_match (Rep lo hi f) p =
     (let n = length (takeWhile f (snd p));
          m = (case hi of None \<Rightarrow> n | Some h \<Rightarrow> min n h)
      in map (\<lambda>j. (advance j p, None)) (rep_counts lo m))"
| "rx_match (Grp a) p = map (\<lambda>r. (fst r, Some (matched_text p (fst r)))) (rx_match a p)"
| "rx_match WordB p = (if word_before p \<noteq> word_after p then [(p, None)] else [])"

definition found_item :: "pos \<Rightarrow> pos \<times> string option \<Rightarrow> string" where
  \<comment> \<open>What \<open>findall\<close> reports for a match: the group if the pattern has one, else the
      whole match.\<close>
  "found_item p r = (case snd r of None \<Rightarrow> matched_text p (fst r) | Some g \<Rightarrow> g)"

function findall_from :: "rx \<Rightarrow> pos \<Rightarrow> string list" where
  \<comment> \<open>\<open>re.findall\<close>: the leftmost match from each position on, the search going on where
      the match ended (one character further on after an empty match or none).\<close>
  "findall_from r p =
     (case rx_match r p of
        [] \<Rightarrow> (case snd p of [] \<Rightarrow> [] | c # cs \<Rightarrow> findall_from r (Some c, cs))
      | m # _ \<Rightarrow>
          found_item p m #
          (if length (snd (fst m)) < length (snd p) then findall_from r (fst m)
           else (case snd p of [] \<Rightarrow> [] | c # cs \<Rightarrow> findall_from r (Some c, cs))))"
  by pat_completeness auto
termination
  by (relation "measure (\<lambda>(r, p). length (snd p))") auto

definition findall :: "rx \<Rightarrow> string \<Rightarrow> string list" where
  "findall r s = findall_from r (None, s)"

subsection \<open>The patterns\<close>

definition lit :: "string \<Rightarrow> rx \<Rightarrow> rx" where
  \<comment> \<open>A literal text followed by a pattern.\<close>
  "lit s r = foldr (\<lambda>c. Seq (Sym (\<lambda>x. x = c))) s r"

definition lit_i :: "string \<Rightarrow> rx \<Rightarrow> rx" where
  \<comment> \<open>A lower-case literal text under \<open>re.IGNORECASE\<close>, followed by a pattern.\<close>
  "lit_i s r = foldr (\<lambda>c. Seq (Sym (\<lambda>x. py_lower_char x = c))) s r"

definition is_hex :: "char \<Rightarrow> bool" where
  \<comment> \<open>\<open>[0-9a-fA-F]\<close>\<close>
  "is_hex c =
     (let n = (of_char c :: nat)
      in (48 \<le> n \<and> n \<le> 57) \<or> (97 \<le> n \<and> n \<le> 102) \<or> (65 \<le> n \<and> n \<le> 70))"

definition not_close_paren :: "char \<Rightarrow> bool" where
  \<comment> \<open>\<open>[^)]\<close>\<close>
  "not_close_paren c = (c \<noteq> CHR '')'')"

definition decl_char :: "char \<Rightarrow> bool" where
  \<comment> \<open>\<open>[^;}{]\<close>\<close>
  "decl_char c = (c \<noteq> CHR '';'' \<and> c \<noteq> CHR ''}'' \<and> c \<noteq> CHR ''{'')"

definition decl_value :: rx where
  \<comment> \<open>\<open>\s*:\s*([^;}{]+)\<close>\<close>
  "decl_value =
     Seq (Rep 0 None py_isspace)
       (lit '':'' (Seq (Rep 0 None py_isspace) (Grp (Rep 1 None decl_char))))"

definition func_call :: "string \<Rightarrow> rx" where
  \<comment> \<open>\<open>rgba?\([^)]*\)\<close> and \<open>hsla?\([^)]*\)\<close>, for the three letters given.\<close>
  "func_call f =
     lit f (Seq (Rep 0 (Some 1) (\<lambda>x. x = CHR ''a''))
              (lit ''('' (Seq (Rep 0 None not_close_paren) (Sym (\<lambda>x. x = CHR '')'')))))"

definition colors_rx :: rx where
  \<comment> \<open>\<open>#(?:[0-9a-fA-F]{3,8})\b|rgba?\([^)]*\)|hsla?\([^)]*\)\<close>\<close>
  "colors_rx =
     Alt (lit ''#'' (Seq (Rep 3 (Some 8) is_hex) WordB))
       (Alt (func_call ''rgb'') (func_call ''hsl''))"

definition font_sizes_rx :: rx where
  \<comment> \<open>\<open>font-size\s*:\s*([^;}{]+)\<close>, ignoring case\<close>
  "font_sizes_rx = lit_i ''font-size'' decl_value"

definition spacings_rx :: rx where
  \<comment> \<open>\<open>(?:margin|padding|gap|row-gap|column-gap)\s*:\s*([^;}{]+)\<close>, ignoring case\<close>
  "spacings_rx =
     Alt (lit_i ''margin'' decl_value)
       (Alt (lit_i ''padding'' decl_value)
          (Alt (lit_i ''gap'' decl_value)
             (Alt (lit_i ''row-gap'' decl_value) (lit_i ''column-gap'' decl_value))))"

definition radii_rx :: rx where
  \<comment> \<open>\<open>border-radius\s*:\s*([^;}{]+)\<close>, ignoring case\<close>
  "radii_rx = lit_i ''border-radius'' decl_value"

definition shadows_rx :: rx where
  \<comment> \<open>\<open>box-shadow\s*:\s*([^;}{]+)\<close>, ignoring case\<close>
  "shadows_rx = lit_i ''box-shadow'' decl_value"

record tokens =
  colors :: "string list"
  font_sizes :: "string list"
  spacings :: "string list"
  radii :: "string list"
  shadows :: "string list"

definition extract_tokens :: "string \<Rightarrow> tokens" where
  "extract_tokens css_text =
     \<lparr> colors = unique_limited (findall colors_rx css_text) 40,
       font_sizes = unique_limited (findall font_sizes_rx css_text) 40,
       spacings = unique_limited (findall spacings_rx css_text) 40,
       radii = unique_limited (findall radii_rx css_text) 40,
       shadows = unique_limited (findall shadows_rx css_text) 40 \<rparr>"

section \<open>The structural report (inspect_html.py, main)\<close>

record html_report =
  html_path :: string
  element_count :: nat
  unique_tags :: nat
  top_tags :: counter
  r_semantic_sections :: counter
  r_interactive_elements :: nat
  r_images :: "string list"
  r_stylesheets :: "string list"
  r_scripts :: "string list"
  r_tokens :: tokens
  r_root_children :: "root_child list"
  repeated_classes :: counter
  sample_interactive :: "interactive list"

text \<open>
  What \<open>main\<close> finds at the path it is given: whether it is an existing regular file, and
  what reading it gives, an \<open>OSError\<close> with its message or the text, which the tokenizer
  of the standard library turns into events. A run of a script ends with an uncaught
  exception, with exit status 2 and an error message, or with exit status 0 and a report.
\<close>

record html_file =
  hf_path :: string
  hf_is_file :: bool
  hf_read :: "string + event list"

datatype 'a outcome = Raised py_error | Exit2 string | Exit0 'a

definition build_report :: "string \<Rightarrow> inspector \<Rightarrow> html_report" where
  "build_report path inspector =
     (let combined_css = py_join [CHR 0x0A] (inline_styles inspector @ style_blocks inspector);
          toks = extract_tokens combined_css
      in \<lparr> html_path = path,
           element_count = sum_list (map snd (tag_counter inspector)),
           unique_tags = length (tag_counter inspector),
           top_tags = most_common_n 15 (tag_counter inspector),
           r_semantic_sections = most_common (semantic_sections inspector),
           r_interactive_elements = length (interactive_elements inspector),
           r_images = unique_limited (images inspector) 50,
           r_stylesheets = unique_limited (stylesheets inspector) 50,
           r_scripts = unique_limited (scripts inspector) 50,
           r_tokens = toks,
           r_root_children = root_children inspector,
           repeated_classes =
             filter (\<lambda>kv. 2 \<le> snd kv) (most_common_n 30 (class_counter inspector)),
           sample_interactive = take 20 (interactive_elements inspector) \<rparr>)"

definition inspect_main :: "html_file \<Rightarrow> html_report outcome" where
  "inspect_main f =
     (if \<not> hf_is_file f then Exit2 (''html file not found: '' @ hf_path f)
      else if py_lower (name_suffix (path_name (hf_path f))) \<noteq> ''.html''
      then Exit2 ''input must be a .html file''
      else (case hf_read f of
              Inl exc \<Rightarrow> Exit2 (''failed to read html: '' @ exc)
            | Inr evs \<Rightarrow>
                (case feed init_inspector evs of
                   Inl e \<Rightarrow> Raised e
                 | Inr inspector \<Rightarrow> Exit0 (build_report (hf_path f) inspector))))"

subsection \<open>What the report is compared with\<close>

fun opening_tag :: "event \<Rightarrow> (string \<times> attrs) list" where
  \<comment> \<open>The opening tag of an event, if it is one, with its attributes.\<close>
  "opening_tag (StartTag tag attrs) = [(tag, attrs)]"
| "opening_tag (StartEndTag tag attrs) = [(tag, attrs)]"
| "opening_tag (EndTag tag) = []"
| "opening_tag (Data d) = []"

definition openings :: "event list \<Rightarrow> (string \<times> attrs) list" where
  "openings evs = concat (map opening_tag evs)"

definition class_names :: "attrs \<Rightarrow> string list" where
  \<comment> \<open>The class names an opening tag lists, in order, with repetitions.\<close>
  "class_names attrs =
     (case dict_get (attrs_dict attrs) ''class'' of None \<Rightarrow> [] | Some v \<Rightarrow> py_split v)"

definition qualifies :: "string \<times> attrs \<Rightarrow> bool" where
  \<comment> \<open>An interactive element in the words of the specification.\<close>
  "qualifies e =
     (fst e \<in> {''button'', ''a'', ''input'', ''select'', ''textarea'', ''summary''}
      \<or> (\<exists>v. dict_get (attrs_dict (snd e)) ''onclick'' = Some v \<and> v \<noteq> [])
      \<or> dict_get (attrs_dict (snd e)) ''role'' = Some ''button'')"

definition sample_of :: "string \<times> attrs \<Rightarrow> interactive" where
  \<comment> \<open>The sample (tag, id, class, role) recorded for an opening tag.\<close>
  "sample_of e =
     \<lparr> i_tag = fst e,
       i_id = dict_get_or (attrs_dict (snd e)) ''id'' [],
       i_class = dict_get_or (attrs_dict (snd e)) ''class'' [],
       i_role = dict_get_or (attrs_dict (snd e)) ''role'' [] \<rparr>"



definition class_count :: "string \<Rightarrow> inspector \<Rightarrow> nat" where
  \<comment> \<open>\<open>inspector.class_counter[c]\<close>\<close>
  "class_count c s = counter_get (class_counter s) c"

definition class_occurrences :: "string \<Rightarrow> event list \<Rightarrow> nat" where
  \<comment> \<open>How often the opening tags of a page list a class name, repetitions within one
      class attribute included.\<close>
  "class_occurrences c evs =
     sum_list (map (\<lambda>e. count_list (class_names (snd e)) c) (openings evs))"

definition elements_with_class :: "string \<Rightarrow> event list \<Rightarrow> nat" where
  \<comment> \<open>The number of opening tags of a page that list a class name.\<close>
  "elements_with_class c evs =
     length (filter (\<lambda>e. c \<in> set (class_names (snd e))) (openings evs))"

definition listed_once :: "string \<Rightarrow> event list \<Rightarrow> bool" where
  \<comment> \<open>No opening tag of the page lists the class name more than once.\<close>
  "listed_once c evs = list_all (\<lambda>e. count_list (class_names (snd e)) c \<le> 1) (openings evs)"

definition accepted :: "html_file \<Rightarrow> event list \<Rightarrow> bool" where
  \<comment> \<open>The file passes the checks of \<open>main\<close> and reading it gives these events.\<close>
  "accepted f evs =
     (hf_is_file f \<and> py_lower (name_suffix (path_name (hf_path f))) = ''.html''
      \<and> hf_read f = Inr evs)"

definition nested_cards :: "event list" where
  \<comment> \<open>\<open><div class="card"><div class="card"><button onclick="x()">Go</button></div></div>\<close>\<close>
  "nested_cards =
     [StartTag ''div'' [(''class'', Some ''card'')],
      StartTag ''div'' [(''class'', Some ''card'')],
      StartTag ''button'' [(''onclick'', Some ''x()'')],
      Data ''Go'', EndTag ''button'', EndTag ''div'', EndTag ''div'']"

definition draft_file :: "event list \<Rightarrow> html_file" where
  "draft_file evs = \<lparr> hf_path = ''/work/draft.html'', hf_is_file = True, hf_read = Inr evs \<rparr>"

section \<open>Source-file statistics (detect_stack.py)\<close>

definition EXCLUDED_DIRS :: "string set" where
  "EXCLUDED_DIRS = {''node_modules'', ''.git'', ''.next'', ''.nuxt'', ''dist'', ''build'',
     ''coverage'', ''out'', ''.turbo''}"

text \<open>
  A directory holds file names and named subdirectories. \<open>os.walk\<close> yields, top down, for
  each directory its path, the names of its subdirectories and the names of its files;
  the loop of \<open>gather_source_stats\<close> removes the excluded names from the subdirectories
  before the walk descends, so the walk never enters them.
\<close>

datatype dir = Dir "string list" "(string \<times> dir) list"

type_synonym walk_entry = "string \<times> string list \<times> string list"

fun os_walk :: "string \<Rightarrow> dir \<Rightarrow> walk_entry list" where
  "os_walk here (Dir files subdirs) =
     (here, map fst (filter (\<lambda>nd. fst nd \<notin> EXCLUDED_DIRS) subdirs), files) #
     concat (map (\<lambda>nd. os_walk (here @ ''/'' @ fst nd) (snd nd))
                 (filter (\<lambda>nd. fst nd \<notin> EXCLUDED_DIRS) subdirs))"

text \<open>The dictionary \<open>counts\<close>, one field for each of its keys.\<close>

record counts =
  n_ts :: nat
  n_tsx :: nat
  n_js :: nat
  n_jsx :: nat
  n_vue :: nat
  n_svelte :: nat
  n_scss :: nat
  n_less :: nat
  n_css :: nat
  n_module_css :: nat
  n_module_scss :: nat
  n_module_less :: nat

definition zero_counts :: counts where
  "zero_counts = \<lparr> n_ts = 0, n_tsx = 0, n_js = 0, n_jsx = 0, n_vue = 0, n_svelte = 0,
     n_scss = 0, n_less = 0, n_css = 0, n_module_css = 0, n_module_scss = 0,
     n_module_less = 0 \<rparr>"

definition count_suffix :: "counts \<Rightarrow> string \<Rightarrow> counts" where
  "count_suffix c suffix =
     (if suffix = ''.ts'' then c\<lparr>n_ts := n_ts c + 1\<rparr>
      else if suffix = ''.tsx'' then c\<lparr>n_tsx := n_tsx c + 1\<rparr>
      else if suffix = ''.js'' then c\<lparr>n_js := n_js c + 1\<rparr>
      else if suffix = ''.jsx'' then c\<lparr>n_jsx := n_jsx c + 1\<rparr>
      else if suffix = ''.vue'' then c\<lparr>n_vue := n_vue c + 1\<rparr>
      else if suffix = ''.svelte'' then c\<lparr>n_svelte := n_svelte c + 1\<rparr>
      else if suffix = ''.scss'' then c\<lparr>n_scss := n_scss c + 1\<rparr>
      else if suffix = ''.less'' then c\<lparr>n_less := n_less c + 1\<rparr>
      else if suffix = ''.css'' then c\<lparr>n_css := n_css c + 1\<rparr>
      else c)"

definition count_module :: "counts \<Rightarrow> string \<Rightarrow> counts" where
  "count_module c lower_name =
     (if py_endswith lower_name ''.module.css'' then c\<lparr>n_module_css := n_module_css c + 1\<rparr>
      else if py_endswith lower_name ''.module.scss''
      then c\<lparr>n_module_scss := n_module_scss c + 1\<rparr>
      else if py_endswith lower_name ''.module.less''
      then c\<lparr>n_module_less := n_module_less c + 1\<rparr>
      else c)"

definition count_file :: "counts \<Rightarrow> string \<Rightarrow> counts" where
  \<comment> \<open>The body of the inner loop after the bound check, for one file name.\<close>
  "count_file c filename =
     count_module (count_suffix c (py_lower (name_suffix filename))) (py_lower filename)"

fun files_loop :: "nat \<Rightarrow> counts \<times> nat \<Rightarrow> string list \<Rightarrow> counts + counts \<times> nat" where
  \<comment> \<open>The inner loop on \<open>counts\<close> and \<open>scanned\<close>: \<open>Inl\<close> is the early \<open>return counts\<close>.\<close>
  "files_loop max_files (c, scanned) [] = Inr (c, scanned)"
| "files_loop max_files (c, scanned) (filename # files) =
     (if max_files \<le> scanned then Inl c
      else files_loop max_files (count_file c filename, scanned + 1) files)"

fun walk_loop :: "nat \<Rightarrow> counts \<times> nat \<Rightarrow> walk_entry list \<Rightarrow> counts \<times> walk_entry list" where
  \<comment> \<open>The outer loop over what \<open>os.walk\<close> yields, and the final \<open>return counts\<close>. The walk
      is a generator: beside the counts the loop leaves the entries that the generator has
      not yielded when the function returns.\<close>
  "walk_loop max_files (c, scanned) [] = (c, [])"
| "walk_loop max_files (c, scanned) (entry # entries) =
     (case files_loop max_files (c, scanned) (snd (snd entry)) of
        Inl c' \<Rightarrow> (c', entries)
      | Inr st \<Rightarrow> walk_loop max_files st entries)"

definition gather_source_stats :: "string \<Rightarrow> dir \<Rightarrow> nat \<Rightarrow> counts" where
  "gather_source_stats project_root tree max_files =
     fst (walk_loop max_files (zero_counts, 0) (os_walk project_root tree))"

definition walked_files :: "walk_entry list \<Rightarrow> string list" where
  \<comment> \<open>The file names of a walk, in the order in which the loops meet them.\<close>
  "walked_files entries = concat (map (\<lambda>e. snd (snd e)) entries)"


definition module_total :: "counts \<Rightarrow> nat" where
  "module_total c = n_module_css c + n_module_scss c + n_module_less c"

section \<open>Python floats\<close>

text \<open>
  A Python \<open>float\<close> is an IEEE 754 binary64 number. It is modelled by the rational
  number that is its exact value; \<open>fl\<close> rounds a rational to the nearest binary64 value,
  ties to the even significand, as every arithmetic operation and every decimal literal
  does: the literal \<open>0.28\<close> is \<open>fl (28 / 100)\<close>, the sum \<open>a + b\<close> is \<open>fl (a + b)\<close>. Infinities
  and NaN (magnitudes from \<open>2 ^ 1024\<close> on) are outside the model; the numbers of the
  scripts stay below 16.
\<close>

definition rhe :: "rat \<Rightarrow> int" where
  \<comment> \<open>The nearest integer, a tie going to the even one.\<close>
  "rhe x = (let f = \<lfloor>x\<rfloor>; d = x - of_int f
            in if d < 1 / 2 then f else if 1 / 2 < d then f + 1
               else if even f then f else f + 1)"

definition expo :: "rat \<Rightarrow> int" where
  \<comment> \<open>For \<open>x > 0\<close>, the binary exponent \<open>e\<close> with \<open>2 ^ e \<le> x < 2 ^ (e + 1)\<close>.\<close>
  "expo x = (if 1 \<le> x then bitlen \<lfloor>x\<rfloor> - 1 else - bitlen (\<lceil>1 / x\<rceil> - 1))"

definition ulp_exp :: "rat \<Rightarrow> int" where
  \<comment> \<open>The exponent of the spacing of the doubles around \<open>x\<close>.\<close>
  "ulp_exp x = max (expo \<bar>x\<bar>) (- 1022) - 52"

definition fl :: "rat \<Rightarrow> rat" where
  \<comment> \<open>53 significant bits; below \<open>2 ^ -1022\<close> the spacing stays \<open>2 ^ -1074\<close>.\<close>
  "fl x = (if x = 0 then 0
           else sgn x * of_int (rhe (\<bar>x\<bar> / 2 powi ulp_exp x)) * 2 powi ulp_exp x)"

definition py_round :: "rat \<Rightarrow> nat \<Rightarrow> rat" where
  \<comment> \<open>\<open>round(x, ndigits)\<close>: the exact value of \<open>x\<close> rounded to \<open>ndigits\<close> decimals, a tie
      going to the even digit, and the double nearest to that decimal.\<close>
  "py_round x ndigits = fl (of_int (rhe (x * 10 ^ ndigits)) / 10 ^ ndigits)"

function str_nat :: "nat \<Rightarrow> string" where
  \<comment> \<open>\<open>str(n)\<close> for a non-negative \<open>int\<close>.\<close>
  "str_nat n =
     (if n < 10 then [char_of (48 + n)] else str_nat (n div 10) @ [char_of (48 + n mod 10)])"
  by pat_completeness auto
termination
  by (relation "measure id") auto

section \<open>The weighted classifier (detect_stack.py)\<close>

text \<open>
  What the script finds under the project root: whether the root is a directory, the
  dependency names and versions that \<open>main\<close> collects from \<open>package.json\<close>, which relative
  paths exist, and the directory tree that \<open>os.walk\<close> traverses.
\<close>

record project =
  p_path :: string
  p_is_dir :: bool
  p_deps :: "(string \<times> string) list"
  p_exists :: "string \<Rightarrow> bool"
  p_tree :: dir

definition dep_names :: "project \<Rightarrow> string set" where
  \<comment> \<open>\<open>set(deps.keys())\<close>\<close>
  "dep_names p = set (map fst (p_deps p))"

type_synonym scores = "(string \<times> rat) list"

type_synonym evidence = "(string \<times> string list) list"

record tally =
  t_scores :: scores
  t_evidence :: evidence

definition add :: "string \<Rightarrow> rat \<Rightarrow> string \<Rightarrow> tally \<Rightarrow> tally" where
  \<comment> \<open>\<open>scores[name] += points; evidence[name].append(reason)\<close>\<close>
  "add name points reason t =
     \<lparr> t_scores = map (\<lambda>kv. if fst kv = name then (fst kv, fl (snd kv + points)) else kv)
                      (t_scores t),
       t_evidence = map (\<lambda>kv. if fst kv = name then (fst kv, snd kv @ [reason]) else kv)
                        (t_evidence t) \<rparr>"

text \<open>
  A rule is one \<open>if\<close> statement of a detector with one call of \<open>add\<close>: its condition (which
  never reads the scores), the label, the points and the reason. A detector runs its rules
  in the order of the source.
\<close>

type_synonym rule = "bool \<times> string \<times> rat \<times> string"

definition apply_rule :: "tally \<Rightarrow> rule \<Rightarrow> tally" where
  "apply_rule t r = (if fst r then add (fst (snd r)) (fst (snd (snd r))) (snd (snd (snd r))) t else t)"

definition run_rules :: "tally \<Rightarrow> rule list \<Rightarrow> tally" where
  "run_rules t rules = foldl apply_rule t rules"

definition FRAMEWORKS :: "string list" where
  "FRAMEWORKS = [''next'', ''react'', ''nuxt'', ''vue'', ''taro'', ''svelte'', ''vanilla'']"

definition STYLES :: "string list" where
  "STYLES = [''tailwind'', ''css-modules'', ''scss'', ''less'', ''styled-components'',
     ''emotion'', ''css'']"

definition start_tally :: "string list \<Rightarrow> string \<Rightarrow> tally" where
  \<comment> \<open>All scores \<open>0.0\<close> but the baseline label's \<open>0.2\<close>; no evidence.\<close>
  "start_tally labels baseline =
     \<lparr> t_scores = map (\<lambda>n. (n, if n = baseline then fl (2 / 10) else 0)) labels,
       t_evidence = map (\<lambda>n. (n, [])) labels \<rparr>"

definition framework_rules :: "project \<Rightarrow> rule list" where
  "framework_rules p =
     [(''next'' \<in> dep_names p, ''next'', fl (12 / 10), ''dependency: next''),
      (''react'' \<in> dep_names p, ''react'', fl (9 / 10), ''dependency: react''),
      (''react-dom'' \<in> dep_names p, ''react'', fl (3 / 10), ''dependency: react-dom''),
      (''react-router'' \<in> dep_names p \<or> ''react-router-dom'' \<in> dep_names p,
         ''react'', fl (2 / 10), ''dependency: react-router''),
      (''nuxt'' \<in> dep_names p, ''nuxt'', fl (12 / 10), ''dependency: nuxt''),
      (''vue'' \<in> dep_names p, ''vue'', fl (9 / 10), ''dependency: vue''),
      (''vue-router'' \<in> dep_names p, ''vue'', fl (2 / 10), ''dependency: vue-router''),
      (\<exists>dep \<in> dep_names p. py_startswith dep ''@tarojs/'',
         ''taro'', fl (13 / 10), ''dependency: @tarojs/*''),
      (''svelte'' \<in> dep_names p, ''svelte'', fl 1, ''dependency: svelte''),
      (''@sveltejs/kit'' \<in> dep_names p, ''svelte'', fl (5 / 10), ''dependency: @sveltejs/kit''),
      (p_exists p ''next.config.js'' \<or> p_exists p ''next.config.mjs'',
         ''next'', fl (4 / 10), ''config: next.config.*''),
      (p_exists p ''nuxt.config.ts'' \<or> p_exists p ''nuxt.config.js'',
         ''nuxt'', fl (4 / 10), ''config: nuxt.config.*''),
      (p_exists p ''src/app'' \<or> p_exists p ''app'',
         ''next'', fl (3 / 10), ''dir: app router structure''),
      (p_exists p ''pages'' \<or> p_exists p ''src/pages'',
         ''next'', fl (1 / 10), ''dir: pages structure''),
      (p_exists p ''pages'' \<or> p_exists p ''src/pages'',
         ''react'', fl (1 / 10), ''dir: pages structure''),
      (p_exists p ''pages'' \<or> p_exists p ''src/pages'',
         ''nuxt'', fl (1 / 10), ''dir: pages structure''),
      (p_exists p ''config/index.ts'' \<or> p_exists p ''config/index.js'',
         ''taro'', fl (3 / 10), ''config: taro-like config/index.*'')]"

definition framework_tally :: "project \<Rightarrow> tally" where
  "framework_tally p = run_rules (start_tally FRAMEWORKS ''vanilla'') (framework_rules p)"

definition ordered_by_score :: "scores \<Rightarrow> scores" where
  \<comment> \<open>\<open>sorted(scores.items(), key=lambda x: x[1], reverse=True)\<close>: a stable sort, so
      labels of equal score keep the order of the dictionary.\<close>
  "ordered_by_score sc = sort_key (\<lambda>kv. - snd kv) sc"

definition second_of :: "scores \<Rightarrow> rat" where
  \<comment> \<open>\<open>ordered[1][1] if len(ordered) > 1 else 0.0\<close>, for the rest of \<open>ordered\<close>.\<close>
  "second_of rest = (case rest of [] \<Rightarrow> 0 | kv # _ \<Rightarrow> snd kv)"

definition framework_confidence :: "string \<Rightarrow> rat \<Rightarrow> rat \<Rightarrow> rat" where
  "framework_confidence top_name top_score second_score =
     (let confidence =
        (if top_name = ''vanilla''
         then (if fl (2 / 10) < top_score then fl (55 / 100) else fl (35 / 100))
         else (let c = min (fl (98 / 100)) (fl (fl (45 / 100) + fl (top_score * fl (28 / 100))))
               in if fl (top_score - second_score) < fl (25 / 100)
                  then fl (c - fl (12 / 100)) else c))
      in max (fl (1 / 10)) (py_round confidence 2))"

definition detect_framework :: "project \<Rightarrow> py_error + string \<times> rat \<times> string list \<times> scores" where
  "detect_framework p =
     (let t = framework_tally p
      in case ordered_by_score (t_scores t) of
           [] \<Rightarrow> Inl IndexError
         | best # rest \<Rightarrow>
             (case map_of (t_evidence t) (fst best) of
                None \<Rightarrow> Inl KeyError
              | Some ev \<Rightarrow>
                  Inr (fst best, framework_confidence (fst best) (snd best) (second_of rest),
                       ev, t_scores t)))"

definition detect_language :: "project \<Rightarrow> counts \<Rightarrow> string \<times> string list" where
  "detect_language p source_stats =
     (let ts_total = n_ts source_stats + n_tsx source_stats;
          js_total = n_js source_stats + n_jsx source_stats
      in if p_exists p ''tsconfig.json'' then (''typescript'', [''file: tsconfig.json''])
         else if js_total < ts_total
         then (''typescript'',
               [''source: ts files '' @ str_nat ts_total @ '' > js files '' @ str_nat js_total])
         else (''javascript'',
               [''source: js files '' @ str_nat js_total @ '' >= ts files '' @ str_nat ts_total]))"

definition style_rules :: "project \<Rightarrow> counts \<Rightarrow> rule list" where
  "style_rules p source_stats =
     (let module_total = n_module_css source_stats + n_module_scss source_stats
                         + n_module_less source_stats
      in [(''tailwindcss'' \<in> dep_names p, ''tailwind'', fl 1, ''dependency: tailwindcss''),
          (p_exists p ''tailwind.config.js'' \<or> p_exists p ''tailwind.config.ts'',
             ''tailwind'', fl (5 / 10), ''config: tailwind.config.*''),
          (0 < module_total, ''css-modules'', fl (9 / 10),
             ''source: module style files '' @ str_nat module_total),
          (0 < n_scss source_stats \<or> ''sass'' \<in> dep_names p,
             ''scss'', fl (7 / 10), ''source/dependency: scss or sass''),
          (0 < n_less source_stats \<or> ''less'' \<in> dep_names p,
             ''less'', fl (7 / 10), ''source/dependency: less''),
          (''styled-components'' \<in> dep_names p,
             ''styled-components'', fl 1, ''dependency: styled-components''),
          (''@emotion/react'' \<in> dep_names p \<or> ''@emotion/styled'' \<in> dep_names p,
             ''emotion'', fl 1, ''dependency: emotion'')])"

definition style_tally :: "project \<Rightarrow> counts \<Rightarrow> tally" where
  "style_tally p source_stats = run_rules (start_tally STYLES ''css'') (style_rules p source_stats)"

definition style_confidence :: "rat \<Rightarrow> rat \<Rightarrow> rat" where
  "style_confidence top_score second_score =
     (let c = min (fl (98 / 100)) (fl (fl (45 / 100) + fl (top_score * fl (35 / 100))));
          confidence = (if fl (top_score - second_score) < fl (2 / 10)
                        then fl (c - fl (1 / 10)) else c)
      in max (fl (1 / 10)) (py_round confidence 2))"

definition detect_style_system ::
  "project \<Rightarrow> counts \<Rightarrow> py_error + string \<times> string list \<times> rat" where
  "detect_style_system p source_stats =
     (let t = style_tally p source_stats
      in case ordered_by_score (t_scores t) of
           [] \<Rightarrow> Inl IndexError
         | best # rest \<Rightarrow>
             (case map_of (t_evidence t) (fst best) of
                None \<Rightarrow> Inl KeyError
              | Some ev \<Rightarrow>
                  Inr (fst best, ev, style_confidence (snd best) (second_of rest))))"

definition detect_package_manager :: "project \<Rightarrow> string \<times> string list" where
  "detect_package_manager p =
     (if p_exists p ''pnpm-lock.yaml'' then (''pnpm'', [''file: pnpm-lock.yaml''])
      else if p_exists p ''yarn.lock'' then (''yarn'', [''file: yarn.lock''])
      else if p_exists p ''package-lock.json'' then (''npm'', [''file: package-lock.json''])
      else if p_exists p ''bun.lockb'' \<or> p_exists p ''bun.lock'' then (''bun'', [''file: bun lock''])
      else (''npm'', [''fallback: no lockfile'']))"

subsection \<open>The report of \<open>main\<close>\<close>

record args =
  a_framework :: string
  a_style :: string

record stack_report =
  o_framework :: string
  o_language :: string
  o_style_system :: string
  o_package_manager :: string
  o_confidence :: rat
  o_evidence_framework :: "string list"
  o_evidence_language :: "string list"
  o_evidence_style_system :: "string list"
  o_evidence_package_manager :: "string list"
  o_framework_scores :: scores
  o_source_stats :: counts
  o_overrides :: "(string \<times> string) list"

text \<open>
  The axis results after the overrides and the fallbacks of \<open>main\<close>: label, confidence and
  evidence for the framework and for the style system, and the \<open>overrides\<close> dictionary
  (left out of the output when it is empty).
\<close>

record axes =
  x_framework :: string
  x_fw_confidence :: rat
  x_fw_evidence :: "string list"
  x_style_system :: string
  x_style_confidence :: rat
  x_style_evidence :: "string list"
  x_overrides :: "(string \<times> string) list"

definition apply_overrides ::
  "args \<Rightarrow> string \<times> rat \<times> string list \<Rightarrow> string \<times> string list \<times> rat \<Rightarrow> axes" where
  "apply_overrides a fw st =
     (let x0 = \<lparr> x_framework = fst fw, x_fw_confidence = fst (snd fw),
                  x_fw_evidence = snd (snd fw),
                  x_style_system = fst st, x_style_confidence = snd (snd st),
                  x_style_evidence = fst (snd st), x_overrides = [] \<rparr>;
          x1 = (if a_framework a \<noteq> ''auto''
                then x0\<lparr> x_framework := a_framework a,
                         x_overrides := x_overrides x0 @ [(''framework'', a_framework a)],
                         x_fw_evidence := [''override: framework='' @ a_framework a],
                         x_fw_confidence := fl (99 / 100) \<rparr>
                else x0);
          x2 = (if a_style a \<noteq> ''auto''
                then x1\<lparr> x_style_system := a_style a,
                         x_overrides := x_overrides x1 @ [(''style_system'', a_style a)],
                         x_style_evidence := [''override: style='' @ a_style a],
                         x_style_confidence := fl (99 / 100) \<rparr>
                else x1);
          x3 = (if x_fw_evidence x2 = []
                then x2\<lparr> x_fw_evidence := [''fallback: framework='' @ x_framework x2] \<rparr>
                else x2)
      in if x_style_evidence x3 = []
         then x3\<lparr> x_style_evidence := [''fallback: style_system='' @ x_style_system x3] \<rparr>
         else x3)"

definition report_confidence :: "rat \<Rightarrow> rat \<Rightarrow> rat" where
  \<comment> \<open>\<open>round(min(0.99, (fw_confidence + style_confidence) / 2.0), 2)\<close>\<close>
  "report_confidence fw_conf style_conf =
     py_round (min (fl (99 / 100)) (fl (fl (fw_conf + style_conf) / 2))) 2"

definition detect_main :: "args \<Rightarrow> project \<Rightarrow> stack_report outcome" where
  "detect_main a p =
     (if a_framework a \<notin> set (''auto'' # FRAMEWORKS) then Exit2 ''argument --framework: invalid choice''
      else if a_style a \<notin> set (''auto'' # STYLES) then Exit2 ''argument --style: invalid choice''
      else if \<not> p_is_dir p then Exit2 (''project root not found: '' @ p_path p)
      else (let source_stats = gather_source_stats (p_path p) (p_tree p) 4000;
                lang = detect_language p source_stats;
                pm = detect_package_manager p
            in case detect_framework p of
                 Inl e \<Rightarrow> Raised e
               | Inr fw \<Rightarrow>
                   (case detect_style_system p source_stats of
                      Inl e \<Rightarrow> Raised e
                    | Inr st \<Rightarrow>
                        (let x = apply_overrides a (fst fw, fst (snd fw), fst (snd (snd fw))) st
                         in Exit0
                              \<lparr> o_framework = x_framework x,
                                o_language = fst lang,
                                o_style_system = x_style_system x,
                                o_package_manager = fst pm,
                                o_confidence =
                                  report_confidence (x_fw_confidence x) (x_style_confidence x),
                                o_evidence_framework = x_fw_evidence x,
                                o_evidence_language = snd lang,
                                o_evidence_style_system = x_style_evidence x,
                                o_evidence_package_manager = snd pm,
                                o_framework_scores =
                                  map (\<lambda>kv. (fst kv, py_round (snd kv) 2)) (snd (snd (snd fw))),
                                o_source_stats = source_stats,
                                o_overrides = x_overrides x \<rparr>))))"

subsection \<open>What the classifier is compared with\<close>

definition first_maximal :: "string \<Rightarrow> scores \<Rightarrow> bool" where
  \<comment> \<open>The label stands in the score table, no label declared before it has a score as
      high as its own, and no label declared after it has a higher one.\<close>
  "first_maximal w sc =
     (case dropWhile (\<lambda>kv. fst kv \<noteq> w) sc of
        [] \<Rightarrow> False
      | kv # after \<Rightarrow>
          list_all (\<lambda>x. snd x < snd kv) (takeWhile (\<lambda>kv. fst kv \<noteq> w) sc)
          \<and> list_all (\<lambda>x. snd x \<le> snd kv) after)"

definition score_of :: "string \<Rightarrow> scores \<Rightarrow> rat" where
  \<comment> \<open>\<open>scores[name]\<close> for a label of the table.\<close>
  "score_of name sc = (case map_of sc name of None \<Rightarrow> 0 | Some s \<Rightarrow> s)"

definition runner_up :: "string \<Rightarrow> scores \<Rightarrow> rat" where
  \<comment> \<open>The highest score among the labels other than the winner.\<close>
  "runner_up w sc =
     (case filter (\<lambda>kv. fst kv \<noteq> w) sc of
        [] \<Rightarrow> 0
      | kv # others \<Rightarrow> foldl max (snd kv) (map snd others))"

definition spec_confidence :: "string \<Rightarrow> rat \<Rightarrow> rat \<Rightarrow> rat" where
  \<comment> \<open>The confidence model of the framework axis in the words of the specification.\<close>
  "spec_confidence winner top_score runner =
     max (fl (1 / 10))
       (py_round
          (if winner = ''vanilla'' \<and> fl (2 / 10) < top_score then fl (55 / 100)
           else if winner = ''vanilla'' then fl (35 / 100)
           else if fl (top_score - runner) < fl (25 / 100)
           then fl (min (fl (98 / 100)) (fl (fl (45 / 100) + fl (top_score * fl (28 / 100))))
                    - fl (12 / 100))
           else min (fl (98 / 100)) (fl (fl (45 / 100) + fl (top_score * fl (28 / 100)))))
          2)"

definition two_decimal :: "rat \<Rightarrow> bool" where
  \<comment> \<open>The double that a decimal with two digits after the point denotes.\<close>
  "two_decimal c = (\<exists>k::int. c = fl (of_int k / 100))"

definition in_range :: "rat \<Rightarrow> bool" where
  \<comment> \<open>Between the doubles \<open>0.1\<close> and \<open>0.99\<close>.\<close>
  "in_range c = (fl (1 / 10) \<le> c \<and> c \<le> fl (99 / 100))"

definition runs :: "args \<Rightarrow> project \<Rightarrow> bool" where
  \<comment> \<open>The arguments are among the choices of the parser and the root is a directory.\<close>
  "runs a p =
     (a_framework a \<in> set (''auto'' # FRAMEWORKS) \<and> a_style a \<in> set (''auto'' # STYLES)
      \<and> p_is_dir p)"

definition non_negative :: "scores \<Rightarrow> bool" where
  "non_negative sc = list_all (\<lambda>kv. 0 \<le> snd kv) sc"

section \<open>Example projects\<close>

definition bare_project :: project where
  \<comment> \<open>An empty directory: no \<open>package.json\<close>, no file.\<close>
  "bare_project =
     \<lparr> p_path = ''/work/bare'', p_is_dir = True, p_deps = [], p_exists = (\<lambda>q. False),
       p_tree = Dir [] [] \<rparr>"

definition next_project :: project where
  \<comment> \<open>Dependencies next and react, a \<open>src/app\<close> directory, five \<open>.tsx\<close> files and one
      \<open>.js\<close> file, no \<open>tsconfig.json\<close>.\<close>
  "next_project =
     \<lparr> p_path = ''/work/shop'', p_is_dir = True,
       p_deps = [(''next'', ''14.0.0''), (''react'', ''18.2.0'')],
       p_exists = (\<lambda>q. q = ''src/app''),
       p_tree = Dir [''package.json'']
                  [(''src'', Dir [''a.tsx'', ''b.tsx'', ''c.tsx'', ''d.tsx'', ''e.tsx'', ''f.js'']
                              [(''app'', Dir [] [])])] \<rparr>"

definition tied_project :: project where
  \<comment> \<open>Dependencies next, react and react-dom: next and react both score 1.2.\<close>
  "tied_project =
     \<lparr> p_path = ''/work/tied'', p_is_dir = True,
       p_deps = [(''react'', ''18.2.0''), (''react-dom'', ''18.2.0''), (''next'', ''14.0.0'')],
       p_exists = (\<lambda>q. False), p_tree = Dir [] [] \<rparr>"

definition no_override :: args where
  "no_override = \<lparr> a_framework = ''auto'', a_style = ''auto'' \<rparr>"

definition react_forced :: args where
  "react_forced = \<lparr> a_framework = ''react'', a_style = ''auto'' \<rparr>"

definition both_forced :: args where
  "both_forced = \<lparr> a_framework = ''vue'', a_style = ''scss'' \<rparr>"

section \<open>Closing tags\<close>

lemma remove_innermost_absent: "tag \<notin> set st \<Longrightarrow> remove_innermost tag st = st"
  by (induction st) auto

lemma remove_innermost_split:
  "tag \<notin> set post \<Longrightarrow> remove_innermost tag (pre @ tag # post) = pre @ post"
  by (induction pre) (auto simp: remove_innermost_absent)

lemma close_loop_removes:
  "n \<le> length st \<Longrightarrow> tag \<notin> set (drop n st) \<Longrightarrow>
   close_loop n tag st = Inr (remove_innermost tag st)"
proof (induction n)
  case 0
  then show ?case by (simp add: remove_innermost_absent)
next
  case (Suc idx)
  then have lt: "idx < length st" by simp
  have dr: "drop idx st = st ! idx # drop (Suc idx) st"
    using lt by (simp add: Cons_nth_drop_Suc)
  show ?case
  proof (cases "st ! idx = tag")
    case True
    have "st = take idx st @ tag # drop (Suc idx) st"
      using lt True by (metis id_take_nth_drop)
    then have "remove_innermost tag st = take idx st @ drop (Suc idx) st"
      using remove_innermost_split [OF Suc.prems(2), of "take idx st"] by simp
    then show ?thesis using lt True by (simp add: list_item_def list_del_def)
  next
    case False
    then have "tag \<notin> set (drop idx st)" using Suc.prems(2) dr by auto
    then have "close_loop idx tag st = Inr (remove_innermost tag st)"
      using Suc.IH lt by simp
    then show ?thesis using lt False by (simp add: list_item_def)
  qed
qed

lemma close_style_stack: "stack (close_style s tag) = stack s"
  by (simp add: close_style_def Let_def)

lemma handle_endtag_eq:
  "handle_endtag s tag = Inr ((close_style s tag)\<lparr>stack := remove_innermost tag (stack s)\<rparr>)"
  using close_loop_removes [of "length (stack s)" "stack s" tag]
  by (simp add: handle_endtag_def Let_def close_style_stack)

lemma handle_event_total: "\<exists>s'. handle_event s e = Inr s'"
  by (cases e) (simp_all add: handle_endtag_eq)

lemma feed_total: "\<exists>s'. feed s evs = Inr s'"
proof (induction evs arbitrary: s)
  case Nil
  show ?case by simp
next
  case (Cons e es)
  obtain s1 where "handle_event s e = Inr s1" using handle_event_total by blast
  then show ?case using Cons.IH [of s1] by simp
qed

lemmas starttag_defs = handle_starttag_def handle_startendtag_def Let_def count_classes_def
  count_semantic_def record_interactive_def record_assets_def record_inline_style_def
  record_root_child_def open_style_def attrs_dict_def dict_get_def dict_get_or_def
  is_interactive_def SEMANTIC_TAGS_def INTERACTIVE_TAGS_def truthy_def

lemmas endtag_defs = handle_endtag_def close_style_def list_item_def list_del_def

text \<open>
  C4, as the claim states it, fails on its own example. The tokenizer reports
  \<open><div><span></div>\<close> as the start of \<open>div\<close>, the start of \<open>span\<close> and the end of
  \<open>div\<close>. No exception is raised, but the closing tag removes the \<open>div\<close> entry only: the
  unclosed \<open>span\<close> stays on the stack, which is therefore not empty.
\<close>

theorem unclosed_span_stays_on_stack:
  "map_sum id stack (feed init_inspector
      [StartTag ''div'' [], StartTag ''span'' [], EndTag ''div'']) \<noteq> Inr []"
  by (simp add: starttag_defs endtag_defs init_inspector_def)

text \<open>
  C4, amended. For every inspector state and every closing tag, \<open>handle_endtag\<close> raises no
  exception and removes from the open-tag stack the innermost entry with that tag name,
  at the position where it stands: with the tag absent the stack is unchanged, and
  otherwise exactly the last occurrence is taken out. Feeding any sequence of tokenizer
  events to the inspector raises no exception. On \<open><div><span></div>\<close> the stack after the
  closing tag is the single unclosed entry \<open>span\<close>.
\<close>

theorem endtag_removes_innermost_match:
  "handle_endtag s tag = Inr ((close_style s tag)\<lparr>stack := remove_innermost tag (stack s)\<rparr>)
   \<and> (tag \<notin> set post \<longrightarrow> remove_innermost tag (pre @ tag # post) = pre @ post)
   \<and> (tag \<notin> set st \<longrightarrow> remove_innermost tag st = st)
   \<and> (\<exists>s'. feed s0 evs = Inr s')
   \<and> map_sum id stack (feed init_inspector
        [StartTag ''div'' [], StartTag ''span'' [], EndTag ''div'']) = Inr [''span'']"
proof -
  have "map_sum id stack (feed init_inspector
        [StartTag ''div'' [], StartTag ''span'' [], EndTag ''div'']) = Inr [''span'']"
    by (simp add: starttag_defs endtag_defs init_inspector_def)
  then show ?thesis
    using handle_endtag_eq remove_innermost_split remove_innermost_absent feed_total
    by blast
qed

theorem endtag_removes_innermost_match_witness:
  "handle_endtag (init_inspector\<lparr>stack := [''div'', ''span'', ''div'', ''p'']\<rparr>) ''div''
     = Inr (init_inspector\<lparr>stack := [''div'', ''span'', ''p'']\<rparr>)
   \<and> ''div'' \<notin> set [''p'']
   \<and> remove_innermost ''div'' ([''div'', ''span''] @ ''div'' # [''p''])
       = [''div'', ''span''] @ [''p'']
   \<and> ''div'' \<notin> set [''span'', ''p'']
   \<and> remove_innermost ''div'' [''span'', ''p''] = [''span'', ''p'']
   \<and> (\<exists>s'. feed init_inspector [StartTag ''div'' [], EndTag ''p'', EndTag ''div''] = Inr s')"
  using endtag_removes_innermost_match
    [of "init_inspector\<lparr>stack := [''div'', ''span'', ''div'', ''p'']\<rparr>" "''div''"
        "[''p'']" "[''div'', ''span'']" "[''span'', ''p'']" init_inspector
        "[StartTag ''div'' [], EndTag ''p'', EndTag ''div'']"]
  by (simp add: close_style_def init_inspector_def)

section \<open>Counting during the pass\<close>

lemma counter_inc_sum: "sum_list (map snd (counter_inc c k)) = Suc (sum_list (map snd c))"
  by (induction c k rule: counter_inc.induct) auto

lemma counter_inc_keys: "fst ` set (counter_inc c k) = insert k (fst ` set c)"
  by (induction c k rule: counter_inc.induct) auto

lemma counter_inc_distinct: "distinct (map fst c) \<Longrightarrow> distinct (map fst (counter_inc c k))"
  by (induction c k rule: counter_inc.induct) (auto simp: counter_inc_keys)

lemma counter_get_inc:
  "counter_get (counter_inc c k) k' = counter_get c k' + (if k' = k then 1 else 0)"
  by (induction c k rule: counter_inc.induct) (auto simp: counter_get_def)

lemma counter_get_empty: "counter_get [] k = 0"
  by (simp add: counter_get_def)

lemma counter_fold_sum:
  "sum_list (map snd (foldl counter_inc c ks)) = sum_list (map snd c) + length ks"
  by (induction ks arbitrary: c) (auto simp: counter_inc_sum)

lemma counter_fold_keys:
  "fst ` set (foldl counter_inc c ks) = fst ` set c \<union> set ks"
  by (induction ks arbitrary: c) (auto simp: counter_inc_keys)

lemma counter_fold_distinct:
  "distinct (map fst c) \<Longrightarrow> distinct (map fst (foldl counter_inc c ks))"
  by (induction ks arbitrary: c) (auto simp: counter_inc_distinct)

lemma counter_fold_get:
  "counter_get (foldl counter_inc c ks) k = counter_get c k + count_list ks k"
  by (induction ks arbitrary: c) (auto simp: counter_get_inc)

lemma counter_fold_length: "length (foldl counter_inc [] ks) = card (set ks)"
proof -
  have "distinct (map fst (foldl counter_inc [] ks))"
    by (rule counter_fold_distinct) simp
  then have "card (set (map fst (foldl counter_inc [] ks))) = length (foldl counter_inc [] ks)"
    using distinct_card [of "map fst (foldl counter_inc [] ks)"] by simp
  then show ?thesis by (simp add: counter_fold_keys)
qed

subsection \<open>What an opening tag records\<close>

lemma is_interactive_qualifies: "is_interactive tag attrs = qualifies (tag, attrs)"
  by (cases "dict_get (attrs_dict attrs) ''onclick''")
     (auto simp: is_interactive_def qualifies_def INTERACTIVE_TAGS_def truthy_def)

lemma record_assets_fields:
  "tag_counter (record_assets s tag attrs) = tag_counter s"
  "class_counter (record_assets s tag attrs) = class_counter s"
  "interactive_elements (record_assets s tag attrs) = interactive_elements s"
  by (simp_all add: record_assets_def Let_def split: option.splits)

lemma count_classes_fields:
  "tag_counter (count_classes s attrs) = tag_counter s"
  "class_counter (count_classes s attrs) = foldl counter_inc (class_counter s) (class_names attrs)"
  "interactive_elements (count_classes s attrs) = interactive_elements s"
  by (simp_all add: count_classes_def class_names_def py_split_def split: option.splits)

lemma count_semantic_fields:
  "tag_counter (count_semantic s tag) = tag_counter s"
  "class_counter (count_semantic s tag) = class_counter s"
  "interactive_elements (count_semantic s tag) = interactive_elements s"
  by (simp_all add: count_semantic_def)

lemma record_interactive_fields:
  "tag_counter (record_interactive s tag attrs) = tag_counter s"
  "class_counter (record_interactive s tag attrs) = class_counter s"
  "interactive_elements (record_interactive s tag attrs) =
     interactive_elements s @ map sample_of (filter qualifies [(tag, attrs)])"
  by (simp_all add: record_interactive_def is_interactive_qualifies sample_of_def)

lemma record_inline_style_fields:
  "tag_counter (record_inline_style s attrs) = tag_counter s"
  "class_counter (record_inline_style s attrs) = class_counter s"
  "interactive_elements (record_inline_style s attrs) = interactive_elements s"
  by (simp_all add: record_inline_style_def split: option.splits)

lemma record_root_child_fields:
  "tag_counter (record_root_child s tag attrs) = tag_counter s"
  "class_counter (record_root_child s tag attrs) = class_counter s"
  "interactive_elements (record_root_child s tag attrs) = interactive_elements s"
  by (simp_all add: record_root_child_def Let_def)

lemma open_style_fields:
  "tag_counter (open_style s tag) = tag_counter s"
  "class_counter (open_style s tag) = class_counter s"
  "interactive_elements (open_style s tag) = interactive_elements s"
  by (simp_all add: open_style_def)

lemmas step_fields = count_classes_fields count_semantic_fields record_interactive_fields
  record_assets_fields record_inline_style_fields record_root_child_fields open_style_fields

lemma starttag_tag_counter:
  "tag_counter (handle_starttag s tag attrs) = counter_inc (tag_counter s) tag"
  by (simp add: handle_starttag_def Let_def step_fields)

lemma starttag_class_counter:
  "class_counter (handle_starttag s tag attrs) =
     foldl counter_inc (class_counter s) (class_names attrs)"
  by (simp add: handle_starttag_def Let_def step_fields)

lemma starttag_interactive:
  "interactive_elements (handle_starttag s tag attrs) =
     interactive_elements s @ map sample_of (filter qualifies [(tag, attrs)])"
  by (simp add: handle_starttag_def Let_def step_fields del: filter.simps)

lemma startendtag_fields:
  "tag_counter (handle_startendtag s tag attrs) = tag_counter (handle_starttag s tag attrs)"
  "class_counter (handle_startendtag s tag attrs) = class_counter (handle_starttag s tag attrs)"
  "interactive_elements (handle_startendtag s tag attrs) =
     interactive_elements (handle_starttag s tag attrs)"
  by (simp_all add: handle_startendtag_def Let_def)

lemma close_style_fields:
  "tag_counter (close_style s tag) = tag_counter s"
  "class_counter (close_style s tag) = class_counter s"
  "interactive_elements (close_style s tag) = interactive_elements s"
  by (simp_all add: close_style_def Let_def)

lemma handle_event_fields:
  assumes "handle_event s e = Inr s'"
  shows "tag_counter s' = foldl counter_inc (tag_counter s) (map fst (opening_tag e))"
    and "class_counter s' =
           foldl counter_inc (class_counter s) (concat (map (\<lambda>a. class_names (snd a)) (opening_tag e)))"
    and "interactive_elements s' =
           interactive_elements s @ map sample_of (filter qualifies (opening_tag e))"
  using assms
  by (cases e; auto simp: starttag_tag_counter starttag_class_counter starttag_interactive
        startendtag_fields handle_endtag_eq close_style_fields handle_data_def)+

lemma feed_fields:
  "feed s evs = Inr s' \<Longrightarrow>
     tag_counter s' = foldl counter_inc (tag_counter s) (map fst (openings evs))
   \<and> class_counter s' =
       foldl counter_inc (class_counter s) (concat (map (\<lambda>a. class_names (snd a)) (openings evs)))
   \<and> interactive_elements s' =
       interactive_elements s @ map sample_of (filter qualifies (openings evs))"
proof (induction evs arbitrary: s)
  case Nil
  then show ?case by (simp add: openings_def)
next
  case (Cons e es)
  obtain s1 where s1: "handle_event s e = Inr s1" using handle_event_total by blast
  then have rest: "feed s1 es = Inr s'" using Cons.prems by simp
  show ?case
    using Cons.IH [OF rest] handle_event_fields [OF s1]
    by (simp add: openings_def)
qed

section \<open>The structural report\<close>

lemma inspect_main_accepted:
  assumes "accepted f evs"
  shows "\<exists>s. feed init_inspector evs = Inr s
           \<and> inspect_main f = Exit0 (build_report (hf_path f) s)"
proof -
  obtain s where "feed init_inspector evs = Inr s" using feed_total by blast
  then show ?thesis using assms by (simp add: accepted_def inspect_main_def)
qed

lemma count_list_concat:
  "count_list (concat (map g es)) c = sum_list (map (\<lambda>e. count_list (g e) c) es)"
  by (induction es) simp_all

lemma count_le_one: "count_list xs c \<le> 1 \<Longrightarrow> count_list xs c = (if c \<in> set xs then 1 else 0)"
  using count_list_0_iff [of xs c] by (cases "c \<in> set xs") auto

lemma occurrences_once:
  "list_all (\<lambda>e. count_list (g e) c \<le> 1) es \<Longrightarrow>
   sum_list (map (\<lambda>e. count_list (g e) c) es) = length (filter (\<lambda>e. c \<in> set (g e)) es)"
  by (induction es) (auto simp: count_le_one)

lemma accepted_draft: "accepted (draft_file evs) evs"
  by (simp add: accepted_def draft_file_def path_name_def name_suffix_def py_lower_def
      py_lower_char_def Let_def)

text \<open>
  C6, as the claim states it, fails where one opening tag lists a class name twice:
  \<open><div class="card card">\<close> is a single element, yet the class \<open>card\<close> gets the
  count 2.
\<close>

theorem class_listed_twice_counts_twice:
  "map_sum id (class_count ''card'')
     (feed init_inspector [StartTag ''div'' [(''class'', Some ''card card'')]]) = Inr 2
   \<and> elements_with_class ''card'' [StartTag ''div'' [(''class'', Some ''card card'')]] = 1"
  by (simp add: starttag_defs init_inspector_def class_count_def counter_get_def
      elements_with_class_def openings_def class_names_def py_split_def py_isspace_def)

text \<open>
  C6, amended. For every HTML input that \<open>main\<close> accepts, the report's \<open>element_count\<close>
  is the sum of all tag frequency counts, which is the number of opening tags;
  \<open>unique_tags\<close> is the number of distinct tag names seen; and the count of a class name
  is the number of times the opening tags list it, one for each occurrence in a class
  attribute. Hence a class name that no element lists more than once and that appears
  on N elements is counted N times, whether or not those elements are nested. The class
  attribute of a tag is the one the inspector reads: the last one if it is repeated.
\<close>

theorem report_counts:
  assumes "accepted f evs"
  shows "\<exists>s. feed init_inspector evs = Inr s
           \<and> inspect_main f = Exit0 (build_report (hf_path f) s)
           \<and> element_count (build_report (hf_path f) s) = sum_list (map snd (tag_counter s))
           \<and> element_count (build_report (hf_path f) s) = length (openings evs)
           \<and> unique_tags (build_report (hf_path f) s) = card (set (map fst (openings evs)))
           \<and> (\<forall>c. class_count c s = class_occurrences c evs)
           \<and> (\<forall>c. listed_once c evs \<longrightarrow> class_count c s = elements_with_class c evs)"
proof -
  obtain s where s: "feed init_inspector evs = Inr s"
    and m: "inspect_main f = Exit0 (build_report (hf_path f) s)"
    using inspect_main_accepted [OF assms] by blast
  have tc: "tag_counter s = foldl counter_inc [] (map fst (openings evs))"
    and cc: "class_counter s =
               foldl counter_inc [] (concat (map (\<lambda>a. class_names (snd a)) (openings evs)))"
    using feed_fields [OF s] by (simp_all add: init_inspector_def)
  have occ: "class_count c s = class_occurrences c evs" for c
    by (simp add: class_count_def cc counter_fold_get counter_get_empty class_occurrences_def
        count_list_concat)
  have once: "class_occurrences c evs = elements_with_class c evs" if "listed_once c evs" for c
    using that occurrences_once [of "\<lambda>e. class_names (snd e)" c "openings evs"]
    by (simp add: class_occurrences_def elements_with_class_def listed_once_def)
  have "element_count (build_report (hf_path f) s) = sum_list (map snd (tag_counter s))"
    by (simp add: build_report_def Let_def)
  moreover have "element_count (build_report (hf_path f) s) = length (openings evs)"
    by (simp add: build_report_def Let_def tc counter_fold_sum)
  moreover have "unique_tags (build_report (hf_path f) s) = card (set (map fst (openings evs)))"
    by (simp add: build_report_def Let_def tc counter_fold_length)
  ultimately show ?thesis using s m occ once by auto
qed

theorem report_counts_witness:
  "accepted (draft_file nested_cards) nested_cards
   \<and> listed_once ''card'' nested_cards
   \<and> (\<exists>s. feed init_inspector nested_cards = Inr s
         \<and> inspect_main (draft_file nested_cards)
             = Exit0 (build_report (hf_path (draft_file nested_cards)) s)
         \<and> element_count (build_report (hf_path (draft_file nested_cards)) s) = 3
         \<and> unique_tags (build_report (hf_path (draft_file nested_cards)) s) = 2
         \<and> class_count ''card'' s = 2)"
proof -
  have a: "accepted (draft_file nested_cards) nested_cards" by (rule accepted_draft)
  have names: "map (\<lambda>e. class_names (snd e)) (openings nested_cards) = [[''card''], [''card''], []]"
    by (simp add: openings_def nested_cards_def class_names_def attrs_dict_def dict_get_def
        py_split_def py_isspace_def)
  have once: "listed_once ''card'' nested_cards"
    using names by (simp add: listed_once_def list_all_iff openings_def nested_cards_def)
  have n: "length (openings nested_cards) = 3"
    and u: "card (set (map fst (openings nested_cards))) = 2"
    by (simp_all add: openings_def nested_cards_def)
  have w: "elements_with_class ''card'' nested_cards = 2"
    using names by (simp add: elements_with_class_def openings_def nested_cards_def)
  from report_counts [OF a] once n u w a show ?thesis by auto
qed



section \<open>Design tokens\<close>











section \<open>The bound on the traversal\<close>










section \<open>Rounding to a double is monotone\<close>

lemma rhe_of_int [simp]: "rhe (of_int n) = n"
  by (simp add: rhe_def)

lemma rhe_mono: assumes "x \<le> y" shows "rhe x \<le> rhe y"
proof (cases "\<lfloor>x\<rfloor> = \<lfloor>y\<rfloor>")
  case True
  then show ?thesis using assms by (auto simp: rhe_def Let_def)
next
  case False
  then have lt: "\<lfloor>x\<rfloor> < \<lfloor>y\<rfloor>" using assms floor_mono [of x y] by linarith
  have "rhe x \<le> \<lfloor>x\<rfloor> + 1" by (simp add: rhe_def Let_def)
  moreover have "\<lfloor>y\<rfloor> \<le> rhe y" by (simp add: rhe_def Let_def)
  ultimately show ?thesis using lt by linarith
qed

lemma rhe_nonneg: "0 \<le> x \<Longrightarrow> 0 \<le> rhe x"
  using rhe_mono [of 0 x] rhe_of_int [of 0] by simp

lemma expo_bounds:
  assumes "0 < x"
  shows "2 powi (expo x) \<le> x" and "x < 2 powi (expo x + 1)"
proof -
  have "2 powi (expo x) \<le> x \<and> x < 2 powi (expo x + 1)"
  proof (cases "1 \<le> x")
    case True
    define n where "n = \<lfloor>x\<rfloor>"
    have n1: "1 \<le> n" using True by (simp add: n_def le_floor_iff)
    then have n0: "0 < n" by simp
    define b where "b = bitlen n"
    have bb: "2 ^ nat (b - 1) \<le> n" "n < 2 ^ nat b"
      using bitlen_bounds [OF n0] by (simp_all add: b_def)
    have b1: "1 \<le> b" using n0 by (simp add: b_def bitlen_def floorlog_def)
    have e: "expo x = b - 1" using True by (simp add: expo_def n_def b_def)
    have nx: "of_int n \<le> x" "x < of_int n + 1"
      using floor_correct [of x] by (simp_all add: n_def)
    have "(2::rat) powi (b - 1) = of_int (2 ^ nat (b - 1))"
      using b1 by (simp add: power_int_def)
    also have "\<dots> \<le> of_int n" using bb(1) by (simp only: of_int_le_iff)
    finally have lo: "2 powi (b - 1) \<le> x" using nx(1) by linarith
    have "n + 1 \<le> 2 ^ nat b" using bb(2) by simp
    then have "(of_int (n + 1) :: rat) \<le> of_int (2 ^ nat b)" by (simp only: of_int_le_iff)
    moreover have "(2::rat) powi b = of_int (2 ^ nat b)" using b1 by (simp add: power_int_def)
    ultimately have hi: "x < 2 powi b" using nx(2) by simp
    show ?thesis using lo hi e by simp
  next
    case False
    define y where "y = 1 / x"
    have y1: "1 < y" using False assms by (simp add: y_def)
    define n where "n = \<lceil>y\<rceil> - 1"
    have ny: "of_int n < y" "y \<le> of_int n + 1"
      using ceiling_correct [of y] by (simp_all add: n_def)
    have n1: "1 \<le> n" using y1 ny(2) by linarith
    then have n0: "0 < n" by simp
    define b where "b = bitlen n"
    have bb: "2 ^ nat (b - 1) \<le> n" "n < 2 ^ nat b"
      using bitlen_bounds [OF n0] by (simp_all add: b_def)
    have b1: "1 \<le> b" using n0 by (simp add: b_def bitlen_def floorlog_def)
    have e: "expo x = - b" using False by (simp add: expo_def n_def b_def y_def)
    have "n + 1 \<le> 2 ^ nat b" using bb(2) by simp
    then have "(of_int (n + 1) :: rat) \<le> of_int (2 ^ nat b)" by (simp only: of_int_le_iff)
    then have yb: "y \<le> 2 ^ nat b" using ny(2) by simp
    have "(of_int (2 ^ nat (b - 1)) :: rat) \<le> of_int n" using bb(1) by (simp only: of_int_le_iff)
    then have "(2::rat) ^ nat (b - 1) \<le> of_int n" by simp
    then have by': "2 ^ nat (b - 1) < y" using ny(1) by linarith
    have xy: "x = 1 / y" using assms by (simp add: y_def)
    have y0: "0 < y" using y1 by simp
    have p1: "(2::rat) powi (- b) = 1 / 2 ^ nat b"
      using b1 by (simp add: power_int_def inverse_eq_divide power_one_over)
    have p2: "(2::rat) powi (- b + 1) = 1 / 2 ^ nat (b - 1)"
      using b1 by (simp add: power_int_def inverse_eq_divide power_one_over nat_diff_distrib)
    have lo: "2 powi (- b) \<le> x"
      unfolding p1 xy using yb y0 by (simp add: frac_le)
    have hi: "x < 2 powi (- b + 1)"
      unfolding p2 xy using by' y0 by (simp add: frac_less2)
    show ?thesis using lo hi e by simp
  qed
  then show "2 powi (expo x) \<le> x" and "x < 2 powi (expo x + 1)" by simp_all
qed

lemma expo_mono: assumes "0 < x" "x \<le> y" shows "expo x \<le> expo y"
proof (rule ccontr)
  assume "\<not> expo x \<le> expo y"
  then have "expo y + 1 \<le> expo x" by simp
  then have "(2::rat) powi (expo y + 1) \<le> 2 powi (expo x)"
    by (intro power_int_increasing) simp_all
  moreover have "y < 2 powi (expo y + 1)" using expo_bounds(2) [of y] assms by simp
  moreover have "2 powi (expo x) \<le> x" using expo_bounds(1) [OF assms(1)] .
  ultimately show False using assms(2) by linarith
qed

lemma fl_pos: "0 < x \<Longrightarrow> fl x = of_int (rhe (x / 2 powi (ulp_exp x))) * 2 powi (ulp_exp x)"
  by (simp add: fl_def)

lemma fl_mono_pos:
  assumes "0 < x" "x \<le> y"
  shows "fl x \<le> fl y"
proof -
  have y0: "0 < y" using assms by simp
  let ?ex = "ulp_exp x" and ?ey = "ulp_exp y"
  have le: "?ex \<le> ?ey" using expo_mono [OF assms] assms by (simp add: ulp_exp_def)
  have ux: "(0::rat) < 2 powi ?ex" and uy: "(0::rat) < 2 powi ?ey" by simp_all
  show ?thesis
  proof (cases "?ex = ?ey")
    case True
    have "x / 2 powi ?ey \<le> y / 2 powi ?ey" using assms(2) uy by (simp add: divide_right_mono)
    then have "rhe (x / 2 powi ?ey) \<le> rhe (y / 2 powi ?ey)" by (rule rhe_mono)
    then have "(of_int (rhe (x / 2 powi ?ey)) :: rat) * 2 powi ?ey
        \<le> of_int (rhe (y / 2 powi ?ey)) * 2 powi ?ey"
      using uy by (simp add: mult_right_mono)
    then show ?thesis using True by (simp add: fl_pos assms(1) y0)
  next
    case False
    then have lt: "?ex + 1 \<le> ?ey" using le by simp
    then have ey: "expo y = ?ey + 52"
      using assms by (auto simp: ulp_exp_def max_def split: if_splits)
    have "expo x \<le> ?ex + 52" using assms(1) by (simp add: ulp_exp_def)
    then have "(2::rat) powi (expo x + 1) \<le> 2 powi (?ex + 53)"
      by (intro power_int_increasing) simp_all
    then have "x < 2 powi (?ex + 53)" using expo_bounds(2) [OF assms(1)] by linarith
    also have "(2::rat) powi (?ex + 53) = 2 ^ 53 * 2 powi ?ex"
      by (simp add: power_int_add)
    finally have "x / 2 powi ?ex < 2 ^ 53" using ux by (simp add: pos_divide_less_eq)
    then have "x / 2 powi ?ex \<le> of_int (2 ^ 53)" by simp
    then have "rhe (x / 2 powi ?ex) \<le> rhe (of_int (2 ^ 53))" by (rule rhe_mono)
    then have rx: "rhe (x / 2 powi ?ex) \<le> 2 ^ 53" by (simp only: rhe_of_int)
    have "(2::rat) powi (?ey + 52) \<le> y" using expo_bounds(1) [OF y0] ey by simp
    moreover have "(2::rat) powi (?ey + 52) = 2 ^ 52 * 2 powi ?ey"
      by (simp add: power_int_add)
    ultimately have "2 ^ 52 \<le> y / 2 powi ?ey" using uy by (simp add: pos_le_divide_eq)
    then have "of_int (2 ^ 52) \<le> y / 2 powi ?ey" by simp
    then have "rhe (of_int (2 ^ 52)) \<le> rhe (y / 2 powi ?ey)" by (rule rhe_mono)
    then have ry: "2 ^ 52 \<le> rhe (y / 2 powi ?ey)" by (simp only: rhe_of_int)
    have "fl x \<le> 2 ^ 53 * 2 powi ?ex"
    proof -
      have "(of_int (rhe (x / 2 powi ?ex)) :: rat) \<le> of_int (2 ^ 53)"
        using rx by (simp only: of_int_le_iff)
      then show ?thesis using ux by (simp add: fl_pos assms(1) mult_right_mono)
    qed
    also have "\<dots> = 2 ^ 52 * 2 powi (?ex + 1)" by (simp add: power_int_add)
    also have "\<dots> \<le> 2 ^ 52 * 2 powi ?ey"
      using lt by (intro mult_left_mono power_int_increasing) simp_all
    also have "\<dots> \<le> fl y"
    proof -
      have "(of_int (2 ^ 52) :: rat) \<le> of_int (rhe (y / 2 powi ?ey))"
        using ry by (simp only: of_int_le_iff)
      then show ?thesis using uy by (simp add: fl_pos y0 mult_right_mono)
    qed
    finally show ?thesis .
  qed
qed

lemma fl_zero [simp]: "fl 0 = 0"
  by (simp add: fl_def)

lemma fl_nonneg: assumes "0 \<le> x" shows "0 \<le> fl x"
proof (cases "x = 0")
  case True
  then show ?thesis by simp
next
  case False
  then have x0: "0 < x" using assms by simp
  have "0 \<le> x / 2 powi (ulp_exp x)" using x0 by simp
  then have "0 \<le> rhe (x / 2 powi (ulp_exp x))" by (rule rhe_nonneg)
  then show ?thesis by (simp add: fl_pos x0)
qed

lemma fl_minus: "fl (- x) = - fl x"
  by (simp add: fl_def ulp_exp_def sgn_minus)

lemma fl_mono: assumes "x \<le> y" shows "fl x \<le> fl y"
proof -
  consider "0 < x" | "x \<le> 0" "0 \<le> y" | "y < 0" using assms by linarith
  then show ?thesis
  proof cases
    case 1
    then show ?thesis using assms by (rule fl_mono_pos)
  next
    case 2
    have "fl x \<le> 0" using fl_nonneg [of "- x"] 2(1) by (simp add: fl_minus)
    moreover have "0 \<le> fl y" using 2(2) by (rule fl_nonneg)
    ultimately show ?thesis by simp
  next
    case 3
    have "fl (- y) \<le> fl (- x)" using fl_mono_pos [of "- y" "- x"] 3 assms by simp
    then show ?thesis by (simp add: fl_minus)
  qed
qed

subsection \<open>Evaluating floats on numerals\<close>

lemma floor_rat_numeral: "\<lfloor>(numeral a :: rat) / numeral b\<rfloor> = numeral a div numeral b"
  by (metis floor_divide_of_int_eq of_int_numeral)

lemma floor_rat_one_over: "\<lfloor>1 / (numeral b :: rat)\<rfloor> = 1 div numeral b"
  by (metis floor_divide_of_int_eq of_int_numeral of_int_1)

lemma ceiling_rat_numeral:
  "\<lceil>(numeral a :: rat) / numeral b\<rceil> = - ((- numeral a) div numeral b)"
  by (metis ceiling_divide_eq_div of_int_numeral)

lemmas rhe_num = rhe_def [unfolded Let_def, of "numeral a / numeral b"]
  rhe_def [unfolded Let_def, of "1 / numeral b"] rhe_def [unfolded Let_def, of "numeral a"]
  rhe_def [unfolded Let_def, of 1] rhe_def [unfolded Let_def, of 0] for a b

lemmas expo_num = expo_def [of "numeral a / numeral b"] expo_def [of "numeral a"]
  expo_def [of "1 / numeral b"] expo_def [of 1] for a b

lemmas ulp_num = ulp_exp_def [of "numeral a / numeral b"] ulp_exp_def [of "numeral a"]
  ulp_exp_def [of "1 / numeral b"] ulp_exp_def [of 1] for a b

lemmas fl_num = fl_def [of "numeral a / numeral b"] fl_def [of "numeral a"]
  fl_def [of "1 / numeral b"] fl_def [of 1] for a b

lemmas bitlen_num = compute_bitlen [of "numeral a"] compute_bitlen [of 1] for a

lemmas round_num = py_round_def [of "numeral a / numeral b"] py_round_def [of "numeral a"]
  py_round_def [of "1 / numeral b"] py_round_def [of 1] py_round_def [of 0] for a b

lemmas num_eval = fl_num fl_minus ulp_num expo_num rhe_num bitlen_num round_num
  floor_rat_numeral floor_rat_one_over ceiling_rat_numeral Let_def

section \<open>The winner of a weighted axis\<close>

subsection \<open>The score table keeps its labels\<close>

lemma add_keys:
  "map fst (t_scores (add name points reason t)) = map fst (t_scores t)"
  "map fst (t_evidence (add name points reason t)) = map fst (t_evidence t)"
  by (simp_all add: add_def comp_def if_distrib cong: if_cong)

lemma apply_rule_keys:
  "map fst (t_scores (apply_rule t r)) = map fst (t_scores t)"
  "map fst (t_evidence (apply_rule t r)) = map fst (t_evidence t)"
  by (simp_all add: apply_rule_def add_keys)

lemma run_rules_keys:
  "map fst (t_scores (run_rules t rules)) = map fst (t_scores t)
   \<and> map fst (t_evidence (run_rules t rules)) = map fst (t_evidence t)"
  unfolding run_rules_def
  by (induction rules arbitrary: t) (simp_all add: apply_rule_keys)

lemma start_tally_keys:
  "map fst (t_scores (start_tally labels b)) = labels"
  "map fst (t_evidence (start_tally labels b)) = labels"
  by (simp_all add: start_tally_def comp_def)

lemma framework_keys:
  "map fst (t_scores (framework_tally p)) = FRAMEWORKS"
  "map fst (t_evidence (framework_tally p)) = FRAMEWORKS"
  by (simp_all add: framework_tally_def run_rules_keys start_tally_keys)

lemma style_keys:
  "map fst (t_scores (style_tally p st)) = STYLES"
  "map fst (t_evidence (style_tally p st)) = STYLES"
  by (simp_all add: style_tally_def run_rules_keys start_tally_keys)

subsection \<open>The head of a stable sort\<close>

lemma sort_key_head:
  "xs \<noteq> [] \<Longrightarrow>
   \<exists>pre post. xs = pre @ hd (sort_key f xs) # post
     \<and> (\<forall>y\<in>set pre. f (hd (sort_key f xs)) < f y)
     \<and> (\<forall>y\<in>set post. f (hd (sort_key f xs)) \<le> f y)"
proof (induction xs)
  case Nil
  then show ?case by simp
next
  case (Cons x xs)
  show ?case
  proof (cases "xs = []")
    case True
    then have "x # xs = [] @ hd (sort_key f (x # xs)) # []
        \<and> (\<forall>y\<in>set []. f (hd (sort_key f (x # xs))) < f y)
        \<and> (\<forall>y\<in>set []. f (hd (sort_key f (x # xs))) \<le> f y)"
      by simp
    then show ?thesis by blast
  next
    case False
    have ne: "sort_key f xs \<noteq> []" using False by (metis length_sort length_0_conv)
    then obtain h tl' where st: "sort_key f xs = h # tl'" by (cases "sort_key f xs") auto
    then have hh: "hd (sort_key f xs) = h" by simp
    obtain pre post where sp: "xs = pre @ h # post"
      and lo: "\<forall>y\<in>set pre. f h < f y" and hi: "\<forall>y\<in>set post. f h \<le> f y"
      using Cons.IH [OF False] hh by auto
    have all: "\<forall>y\<in>set xs. f h \<le> f y"
    proof
      fix y assume "y \<in> set xs"
      then have "y \<in> set pre \<or> y = h \<or> y \<in> set post" using sp by (metis Un_iff set_ConsD set_append)
      then show "f h \<le> f y" using lo hi by auto
    qed
    have hd_new: "hd (sort_key f (x # xs)) = (if f x \<le> f h then x else h)"
      by (simp add: sort_key_simps st)
    show ?thesis
    proof (cases "f x \<le> f h")
      case True
      then have "\<forall>y\<in>set xs. f x \<le> f y" using all by force
      then have "x # xs = [] @ hd (sort_key f (x # xs)) # xs
          \<and> (\<forall>y\<in>set []. f (hd (sort_key f (x # xs))) < f y)
          \<and> (\<forall>y\<in>set xs. f (hd (sort_key f (x # xs))) \<le> f y)"
        using True hd_new by simp
      then show ?thesis by blast
    next
      case False
      then have "x # xs = (x # pre) @ hd (sort_key f (x # xs)) # post
          \<and> (\<forall>y\<in>set (x # pre). f (hd (sort_key f (x # xs))) < f y)
          \<and> (\<forall>y\<in>set post. f (hd (sort_key f (x # xs))) \<le> f y)"
        using hd_new sp lo hi by auto
      then show ?thesis by blast
    qed
  qed
qed

lemma first_maximal_split:
  assumes "distinct (map fst sc)" "sc = pre @ (w, s) # post"
    "\<forall>y\<in>set pre. snd y < s" "\<forall>y\<in>set post. snd y \<le> s"
  shows "first_maximal w sc"
proof -
  have npre: "\<forall>y\<in>set pre. fst y \<noteq> w" using assms(1,2) by force
  then have tw: "takeWhile (\<lambda>kv. fst kv \<noteq> w) sc = pre"
    using assms(2) by (simp add: takeWhile_append2)
  have dw: "dropWhile (\<lambda>kv. fst kv \<noteq> w) sc = (w, s) # post"
    using npre assms(2) by (simp add: dropWhile_append2)
  show ?thesis using assms(3,4) by (simp add: first_maximal_def tw dw list_all_iff)
qed

lemma ordered_head:
  assumes "sc \<noteq> []" "distinct (map fst sc)"
  shows "\<exists>best rest. ordered_by_score sc = best # rest \<and> first_maximal (fst best) sc
           \<and> best \<in> set sc"
proof -
  let ?o = "ordered_by_score sc"
  have ne: "?o \<noteq> []" using assms(1) by (metis ordered_by_score_def length_sort length_0_conv)
  then obtain best rest where o: "?o = best # rest" by (cases ?o) auto
  then have h: "hd (sort_key (\<lambda>kv. - snd kv) sc) = best" by (simp add: ordered_by_score_def)
  obtain pre post where sp: "sc = pre @ best # post"
    and lo: "\<forall>y\<in>set pre. - snd best < - snd y" and hi: "\<forall>y\<in>set post. - snd best \<le> - snd y"
    using sort_key_head [OF assms(1), of "\<lambda>kv. - snd kv"] h by auto
  have "first_maximal (fst best) sc"
    using first_maximal_split [OF assms(2), of pre "fst best" "snd best" post] sp lo hi by simp
  then show ?thesis using o sp by auto
qed

lemma labels_distinct: "distinct FRAMEWORKS" "distinct STYLES" "FRAMEWORKS \<noteq> []" "STYLES \<noteq> []"
  by (simp_all add: FRAMEWORKS_def STYLES_def)

lemma top_of_table:
  assumes "map fst (t_scores t) = labels" "map fst (t_evidence t) = labels"
    "labels \<noteq> []" "distinct labels"
  shows "\<exists>best rest ev. ordered_by_score (t_scores t) = best # rest
           \<and> first_maximal (fst best) (t_scores t)
           \<and> best \<in> set (t_scores t)
           \<and> map_of (t_evidence t) (fst best) = Some ev"
proof -
  have ne: "t_scores t \<noteq> []" using assms(1,3) by auto
  have di: "distinct (map fst (t_scores t))" using assms(1,4) by simp
  obtain best rest where o: "ordered_by_score (t_scores t) = best # rest"
    and fm: "first_maximal (fst best) (t_scores t)" and mem: "best \<in> set (t_scores t)"
    using ordered_head [OF ne di] by blast
  have "fst best \<in> set labels" using mem assms(1) by force
  then have "fst best \<in> fst ` set (t_evidence t)" using assms(2) by (metis set_map)
  then obtain ev where "map_of (t_evidence t) (fst best) = Some ev"
    by (metis map_of_eq_None_iff not_Some_eq)
  then show ?thesis using o fm mem by blast
qed

lemma detect_framework_eq:
  "\<exists>best rest ev. ordered_by_score (t_scores (framework_tally p)) = best # rest
     \<and> first_maximal (fst best) (t_scores (framework_tally p))
     \<and> best \<in> set (t_scores (framework_tally p))
     \<and> detect_framework p =
         Inr (fst best, framework_confidence (fst best) (snd best) (second_of rest), ev,
              t_scores (framework_tally p))"
proof -
  obtain best rest ev where "ordered_by_score (t_scores (framework_tally p)) = best # rest"
    "first_maximal (fst best) (t_scores (framework_tally p))"
    "best \<in> set (t_scores (framework_tally p))"
    "map_of (t_evidence (framework_tally p)) (fst best) = Some ev"
    using top_of_table [OF framework_keys labels_distinct(3) labels_distinct(1)] by blast
  then show ?thesis by (auto simp: detect_framework_def Let_def)
qed

lemma detect_style_system_eq:
  "\<exists>best rest ev. ordered_by_score (t_scores (style_tally p st)) = best # rest
     \<and> first_maximal (fst best) (t_scores (style_tally p st))
     \<and> best \<in> set (t_scores (style_tally p st))
     \<and> detect_style_system p st =
         Inr (fst best, ev, style_confidence (snd best) (second_of rest))"
proof -
  obtain best rest ev where "ordered_by_score (t_scores (style_tally p st)) = best # rest"
    "first_maximal (fst best) (t_scores (style_tally p st))"
    "best \<in> set (t_scores (style_tally p st))"
    "map_of (t_evidence (style_tally p st)) (fst best) = Some ev"
    using top_of_table [OF style_keys labels_distinct(4) labels_distinct(2)] by blast
  then show ?thesis by (auto simp: detect_style_system_def Let_def)
qed

lemma foldl_max: "foldl max (a::rat) xs = Max (insert a (set xs))"
proof (induction xs arbitrary: a)
  case Nil
  show ?case by simp
next
  case (Cons x xs)
  have "foldl max a (x # xs) = Max (insert (max a x) (set xs))" using Cons.IH by simp
  also have "\<dots> = Max (insert a (insert x (set xs)))"
  proof (cases "set xs = {}")
    case True
    then show ?thesis by (simp add: max.commute)
  next
    case False
    then show ?thesis by (simp add: max.assoc)
  qed
  finally show ?case by simp
qed

lemma runner_up_eq:
  assumes "distinct (map fst sc)" "ordered_by_score sc = best # rest"
  shows "second_of rest = runner_up (fst best) sc"
proof -
  have dsc: "distinct sc" using assms(1) by (simp add: distinct_map)
  have st: "set (best # rest) = set sc"
    using assms(2) [symmetric] by (simp add: ordered_by_score_def)
  have dr: "distinct (best # rest)"
    using assms(2) [symmetric] dsc by (simp add: ordered_by_score_def)
  have mem: "best \<in> set sc" using st by auto
  have same: "fst kv \<noteq> fst best \<longleftrightarrow> kv \<noteq> best" if "kv \<in> set sc" for kv
    using that mem assms(1) by (auto simp: distinct_map dest: inj_onD)
  let ?L = "filter (\<lambda>kv. fst kv \<noteq> fst best) sc"
  have "?L = filter (\<lambda>kv. kv \<noteq> best) sc" using same by (metis (mono_tags, lifting) filter_cong)
  then have "set ?L = set sc - {best}" by auto
  moreover have "set rest = set sc - {best}"
    using st dr by auto
  ultimately have sets: "set ?L = set rest" by simp
  have srt: "sorted (map (\<lambda>kv. - snd kv) (best # rest))"
    using assms(2) [symmetric] by (simp add: ordered_by_score_def)
  show ?thesis
  proof (cases rest)
    case Nil
    then have "set ?L = {}" using sets by simp
    then have "?L = []" by (simp only: set_empty)
    then show ?thesis using Nil by (simp add: second_of_def runner_up_def)
  next
    case (Cons r rs)
    have top: "\<forall>y\<in>set rest. snd y \<le> snd r" using srt Cons by auto
    obtain l ls where L: "?L = l # ls" using sets Cons by (cases ?L) auto
    have "runner_up (fst best) sc = Max (snd ` set ?L)"
      by (simp add: runner_up_def L foldl_max)
    also have "\<dots> = Max (snd ` set rest)" using sets by simp
    also have "\<dots> = snd r"
    proof (rule Max_eqI)
      show "finite (snd ` set rest)" by simp
      show "y \<le> snd r" if "y \<in> snd ` set rest" for y using that top by auto
      show "snd r \<in> snd ` set rest" using Cons by simp
    qed
    finally show ?thesis using Cons by (simp add: second_of_def)
  qed
qed

lemma confidence_as_specified:
  "framework_confidence w s r = spec_confidence w s r"
  by (simp add: framework_confidence_def spec_confidence_def Let_def)

lemma score_of_member: "distinct (map fst sc) \<Longrightarrow> (w, s) \<in> set sc \<Longrightarrow> score_of w sc = s"
  by (simp add: score_of_def)

text \<open>
  C1. For every input, on the framework axis and on the style axis, the detector returns
  a label of the axis whose score is maximal among the scores of the axis, and of the
  labels with that maximal score the one declared first: every label declared before the
  winner has a strictly lower score, every label declared after it has a score that is
  not higher. The order of declaration is next, react, nuxt, vue, taro, svelte, vanilla
  for frameworks and tailwind, css-modules, scss, less, styled-components, emotion, css
  for styles. The detectors are functions of their input, so every run selects the same
  label.
\<close>

theorem winner_is_first_maximal:
  "(\<exists>w c ev. detect_framework p = Inr (w, c, ev, t_scores (framework_tally p))
       \<and> first_maximal w (t_scores (framework_tally p)))
   \<and> map fst (t_scores (framework_tally p))
       = [''next'', ''react'', ''nuxt'', ''vue'', ''taro'', ''svelte'', ''vanilla'']
   \<and> (\<exists>w ev c. detect_style_system p st = Inr (w, ev, c)
       \<and> first_maximal w (t_scores (style_tally p st)))
   \<and> map fst (t_scores (style_tally p st))
       = [''tailwind'', ''css-modules'', ''scss'', ''less'', ''styled-components'',
          ''emotion'', ''css'']"
proof -
  have "\<exists>w c ev. detect_framework p = Inr (w, c, ev, t_scores (framework_tally p))
       \<and> first_maximal w (t_scores (framework_tally p))"
    using detect_framework_eq [of p] by blast
  moreover have "\<exists>w ev c. detect_style_system p st = Inr (w, ev, c)
       \<and> first_maximal w (t_scores (style_tally p st))"
    using detect_style_system_eq [of p st] by blast
  ultimately show ?thesis
    using framework_keys(1) [of p] style_keys(1) [of p st]
    by (simp add: FRAMEWORKS_def STYLES_def)
qed

text \<open>
  C2. For every input, the confidence that \<open>detect_framework\<close> returns is the value of the
  specified model at the winner, the winner's score and the highest score among the other
  labels: 0.55 for a winning vanilla whose score exceeds 0.2, 0.35 for a winning vanilla
  otherwise, and else \<open>min(0.98, 0.45 + top_score * 0.28)\<close>, less 0.12 when the top score
  minus the runner-up score is below 0.25; this is rounded to two decimals and then
  floored at 0.1. All arithmetic is that of Python floats.
\<close>

theorem framework_confidence_model:
  "\<exists>w ev. detect_framework p =
       Inr (w,
            spec_confidence w (score_of w (t_scores (framework_tally p)))
              (runner_up w (t_scores (framework_tally p))),
            ev, t_scores (framework_tally p))
     \<and> first_maximal w (t_scores (framework_tally p))"
proof -
  let ?sc = "t_scores (framework_tally p)"
  obtain best rest ev where o: "ordered_by_score ?sc = best # rest"
    and fm: "first_maximal (fst best) ?sc" and mem: "best \<in> set ?sc"
    and d: "detect_framework p =
         Inr (fst best, framework_confidence (fst best) (snd best) (second_of rest), ev, ?sc)"
    using detect_framework_eq [of p] by blast
  have di: "distinct (map fst ?sc)" by (simp add: framework_keys labels_distinct)
  have s: "score_of (fst best) ?sc = snd best"
    using score_of_member [OF di, of "fst best" "snd best"] mem by simp
  have r: "second_of rest = runner_up (fst best) ?sc" using runner_up_eq [OF di o] .
  show ?thesis using d fm by (auto simp: s r [symmetric] confidence_as_specified)
qed

section \<open>Confidence values\<close>

lemma round_fixed:
  "py_round (fl (35 / 100)) 2 = fl (35 / 100)"
  "py_round (fl (55 / 100)) 2 = fl (55 / 100)"
  "py_round (fl (98 / 100)) 2 = fl (98 / 100)"
  "py_round (fl (99 / 100)) 2 = fl (99 / 100)"
  "py_round (fl (1 / 10)) 2 = fl (1 / 10)"
  by (simp_all add: num_eval)

lemma fl_fixed:
  "fl (fl (98 / 100)) = fl (98 / 100)"
  "fl (fl (fl (1 / 10) + fl (1 / 10)) / 2) = fl (1 / 10)"
  by (simp_all add: num_eval)

lemma both_overridden: "report_confidence (fl (99 / 100)) (fl (99 / 100)) = fl (99 / 100)"
  by (simp add: report_confidence_def num_eval)

lemma const_order:
  "fl (1 / 10) \<le> fl (35 / 100)" "fl (1 / 10) \<le> fl (55 / 100)" "fl (1 / 10) \<le> fl (98 / 100)"
  "fl (98 / 100) \<le> fl (99 / 100)" "fl (35 / 100) \<le> fl (98 / 100)" "fl (55 / 100) \<le> fl (98 / 100)"
  "fl (1 / 10) \<le> fl (99 / 100)"
  by (rule fl_mono, simp)+

lemma py_round_mono: assumes "x \<le> y" shows "py_round x n \<le> py_round y n"
proof -
  have "x * 10 ^ n \<le> y * 10 ^ n" using assms by (simp add: mult_right_mono)
  then have "rhe (x * 10 ^ n) \<le> rhe (y * 10 ^ n)" by (rule rhe_mono)
  then have "(of_int (rhe (x * 10 ^ n)) :: rat) \<le> of_int (rhe (y * 10 ^ n))" by simp
  then have "(of_int (rhe (x * 10 ^ n)) :: rat) / 10 ^ n \<le> of_int (rhe (y * 10 ^ n)) / 10 ^ n"
    by (simp add: divide_right_mono)
  then show ?thesis unfolding py_round_def by (rule fl_mono)
qed

lemma two_decimal_round: "two_decimal (py_round x 2)"
  unfolding two_decimal_def py_round_def by (rule exI [of _ "rhe (x * 10 ^ 2)"]) simp

lemma two_decimal_consts: "two_decimal (fl (1 / 10))" "two_decimal (fl (99 / 100))"
  unfolding two_decimal_def
  by (rule exI [of _ 10], simp) (rule exI [of _ 99], simp)

lemma two_decimal_max:
  "two_decimal a \<Longrightarrow> two_decimal b \<Longrightarrow> two_decimal (max a b)"
  by (simp add: max_def)

lemma floored_range:
  assumes "x \<le> fl (98 / 100)"
  shows "in_range (max (fl (1 / 10)) (py_round x 2))"
    and "two_decimal (max (fl (1 / 10)) (py_round x 2))"
proof -
  have "py_round x 2 \<le> fl (98 / 100)"
    using py_round_mono [OF assms, of 2] by (simp only: round_fixed)
  then show "in_range (max (fl (1 / 10)) (py_round x 2))"
    using const_order by (simp add: in_range_def)
  show "two_decimal (max (fl (1 / 10)) (py_round x 2))"
    by (intro two_decimal_max two_decimal_consts two_decimal_round)
qed

lemma penalty_below:
  assumes "c \<le> fl (98 / 100)" "0 \<le> d"
  shows "fl (c - d) \<le> fl (98 / 100)"
proof -
  have "c - d \<le> fl (98 / 100)" using assms by simp
  then have "fl (c - d) \<le> fl (fl (98 / 100))" by (rule fl_mono)
  then show ?thesis by (simp only: fl_fixed)
qed

lemma framework_confidence_range:
  "in_range (framework_confidence w s r) \<and> two_decimal (framework_confidence w s r)"
proof -
  let ?c = "min (fl (98 / 100)) (fl (fl (45 / 100) + fl (s * fl (28 / 100))))"
  have c: "?c \<le> fl (98 / 100)" by simp
  have p: "fl (?c - fl (12 / 100)) \<le> fl (98 / 100)"
    by (rule penalty_below [OF c]) (simp add: fl_nonneg)
  have "framework_confidence w s r = max (fl (1 / 10)) (py_round
      (if w = ''vanilla'' then (if fl (2 / 10) < s then fl (55 / 100) else fl (35 / 100))
       else if fl (s - r) < fl (25 / 100) then fl (?c - fl (12 / 100)) else ?c) 2)"
    by (simp add: framework_confidence_def Let_def)
  moreover have "(if w = ''vanilla'' then (if fl (2 / 10) < s then fl (55 / 100) else fl (35 / 100))
       else if fl (s - r) < fl (25 / 100) then fl (?c - fl (12 / 100)) else ?c) \<le> fl (98 / 100)"
    using c p const_order by (simp del: min_less_iff_conj min.bounded_iff)
  ultimately show ?thesis using floored_range by simp
qed

lemma style_confidence_range:
  "in_range (style_confidence s r) \<and> two_decimal (style_confidence s r)"
proof -
  let ?c = "min (fl (98 / 100)) (fl (fl (45 / 100) + fl (s * fl (35 / 100))))"
  have c: "?c \<le> fl (98 / 100)" by simp
  have p: "fl (?c - fl (1 / 10)) \<le> fl (98 / 100)"
    by (rule penalty_below [OF c]) (simp add: fl_nonneg)
  have "style_confidence s r = max (fl (1 / 10)) (py_round
      (if fl (s - r) < fl (2 / 10) then fl (?c - fl (1 / 10)) else ?c) 2)"
    by (simp add: style_confidence_def Let_def)
  moreover have "(if fl (s - r) < fl (2 / 10) then fl (?c - fl (1 / 10)) else ?c) \<le> fl (98 / 100)"
    using c p by (simp del: min_less_iff_conj min.bounded_iff)
  ultimately show ?thesis using floored_range by simp
qed

lemma report_confidence_range:
  assumes "in_range a" "in_range b"
  shows "in_range (report_confidence a b) \<and> two_decimal (report_confidence a b)"
proof -
  let ?m = "min (fl (99 / 100)) (fl (fl (a + b) / 2))"
  have "fl (1 / 10) + fl (1 / 10) \<le> a + b" using assms by (simp add: in_range_def add_mono)
  then have "fl (fl (1 / 10) + fl (1 / 10)) \<le> fl (a + b)" by (rule fl_mono)
  then have "fl (fl (1 / 10) + fl (1 / 10)) / 2 \<le> fl (a + b) / 2" by simp
  then have "fl (fl (fl (1 / 10) + fl (1 / 10)) / 2) \<le> fl (fl (a + b) / 2)" by (rule fl_mono)
  then have "fl (1 / 10) \<le> fl (fl (a + b) / 2)" by (simp only: fl_fixed)
  then have lo: "fl (1 / 10) \<le> ?m" using const_order by simp
  have hi: "?m \<le> fl (99 / 100)" by simp
  have "py_round (fl (1 / 10)) 2 \<le> py_round ?m 2" using lo by (rule py_round_mono)
  moreover have "py_round ?m 2 \<le> py_round (fl (99 / 100)) 2" using hi by (rule py_round_mono)
  ultimately have "fl (1 / 10) \<le> py_round ?m 2 \<and> py_round ?m 2 \<le> fl (99 / 100)"
    by (simp only: round_fixed)
  then have "in_range (report_confidence a b)"
    unfolding in_range_def report_confidence_def .
  then show ?thesis by (simp add: report_confidence_def two_decimal_round)
qed

subsection \<open>Scores never go below zero\<close>

lemma add_non_negative:
  "non_negative (t_scores t) \<Longrightarrow> 0 \<le> points \<Longrightarrow>
   non_negative (t_scores (add name points reason t))"
  by (fastforce simp: non_negative_def add_def list_all_iff intro!: fl_nonneg add_nonneg_nonneg)

lemma run_rules_non_negative:
  "non_negative (t_scores t) \<Longrightarrow> \<forall>r\<in>set rules. 0 \<le> fst (snd (snd r)) \<Longrightarrow>
   non_negative (t_scores (run_rules t rules))"
  unfolding run_rules_def
proof (induction rules arbitrary: t)
  case Nil
  then show ?case by simp
next
  case (Cons r rules)
  have "non_negative (t_scores (apply_rule t r))"
    using Cons.prems by (simp add: apply_rule_def add_non_negative)
  then show ?case using Cons.IH Cons.prems(2) by simp
qed

lemma start_non_negative: "non_negative (t_scores (start_tally labels b))"
  by (simp add: non_negative_def start_tally_def list_all_iff fl_nonneg)

lemma framework_points: "\<forall>r\<in>set (framework_rules p). 0 \<le> fst (snd (snd r))"
  by (simp add: framework_rules_def fl_nonneg)

lemma style_points: "\<forall>r\<in>set (style_rules p st). 0 \<le> fst (snd (snd r))"
  by (simp add: style_rules_def Let_def fl_nonneg)

lemma scores_non_negative:
  "non_negative (t_scores (run_rules (start_tally FRAMEWORKS ''vanilla'') (take n (framework_rules p))))"
  "non_negative (t_scores (run_rules (start_tally STYLES ''css'') (take n (style_rules p st))))"
proof -
  have "\<forall>r\<in>set (take n (framework_rules p)). 0 \<le> fst (snd (snd r))"
    using framework_points [of p] by (meson in_set_takeD)
  then show "non_negative (t_scores (run_rules (start_tally FRAMEWORKS ''vanilla'')
      (take n (framework_rules p))))"
    by (intro run_rules_non_negative start_non_negative)
  have "\<forall>r\<in>set (take n (style_rules p st)). 0 \<le> fst (snd (snd r))"
    using style_points [of p st] by (meson in_set_takeD)
  then show "non_negative (t_scores (run_rules (start_tally STYLES ''css'')
      (take n (style_rules p st))))"
    by (intro run_rules_non_negative start_non_negative)
qed

subsection \<open>The overrides of \<open>main\<close>\<close>

lemma apply_overrides_framework:
  "x_framework (apply_overrides a fw st) = (if a_framework a \<noteq> ''auto'' then a_framework a else fst fw)"
  "x_fw_confidence (apply_overrides a fw st)
     = (if a_framework a \<noteq> ''auto'' then fl (99 / 100) else fst (snd fw))"
  "a_framework a \<noteq> ''auto'' \<Longrightarrow>
     x_fw_evidence (apply_overrides a fw st) = [''override: framework='' @ a_framework a]"
  by (simp_all add: apply_overrides_def Let_def)

lemma apply_overrides_style:
  "x_style_system (apply_overrides a fw st) = (if a_style a \<noteq> ''auto'' then a_style a else fst st)"
  "x_style_confidence (apply_overrides a fw st)
     = (if a_style a \<noteq> ''auto'' then fl (99 / 100) else snd (snd st))"
  "a_style a \<noteq> ''auto'' \<Longrightarrow>
     x_style_evidence (apply_overrides a fw st) = [''override: style='' @ a_style a]"
  by (simp_all add: apply_overrides_def Let_def)

lemma in_range_override: "in_range (fl (99 / 100))"
  using const_order(7) by (simp add: in_range_def)

lemma detect_main_runs:
  assumes "runs a p"
  shows "\<exists>fw st. detect_framework p = Inr fw
           \<and> detect_style_system p (gather_source_stats (p_path p) (p_tree p) 4000) = Inr st
           \<and> in_range (fst (snd fw)) \<and> two_decimal (fst (snd fw))
           \<and> in_range (snd (snd st)) \<and> two_decimal (snd (snd st))
           \<and> snd (snd (snd fw)) = t_scores (framework_tally p)
           \<and> (\<exists>r. detect_main a p = Exit0 r
                 \<and> o_framework r
                     = x_framework (apply_overrides a (fst fw, fst (snd fw), fst (snd (snd fw))) st)
                 \<and> o_style_system r
                     = x_style_system (apply_overrides a (fst fw, fst (snd fw), fst (snd (snd fw))) st)
                 \<and> o_evidence_framework r
                     = x_fw_evidence (apply_overrides a (fst fw, fst (snd fw), fst (snd (snd fw))) st)
                 \<and> o_evidence_style_system r
                     = x_style_evidence (apply_overrides a (fst fw, fst (snd fw), fst (snd (snd fw))) st)
                 \<and> o_confidence r
                     = report_confidence
                         (x_fw_confidence (apply_overrides a (fst fw, fst (snd fw), fst (snd (snd fw))) st))
                         (x_style_confidence (apply_overrides a (fst fw, fst (snd fw), fst (snd (snd fw))) st))
                 \<and> o_framework_scores r
                     = map (\<lambda>kv. (fst kv, py_round (snd kv) 2)) (t_scores (framework_tally p)))"
proof -
  let ?stats = "gather_source_stats (p_path p) (p_tree p) 4000"
  obtain b r ev where fw: "detect_framework p =
      Inr (fst b, framework_confidence (fst b) (snd b) (second_of r), ev, t_scores (framework_tally p))"
    using detect_framework_eq [of p] by blast
  obtain b' r' ev' where st: "detect_style_system p ?stats =
      Inr (fst b', ev', style_confidence (snd b') (second_of r'))"
    using detect_style_system_eq [of p ?stats] by blast
  show ?thesis
    using assms framework_confidence_range [of "fst b" "snd b" "second_of r"]
      style_confidence_range [of "snd b'" "second_of r'"]
    by (simp add: fw st runs_def detect_main_def Let_def)
qed

section \<open>The report of the classifier\<close>

lemmas detect_defs = detect_main_def detect_framework_def framework_tally_def run_rules_def
  framework_rules_def detect_style_system_def style_tally_def style_rules_def
  style_confidence_def framework_confidence_def report_confidence_def apply_overrides_def
  detect_language_def detect_package_manager_def gather_source_stats_def zero_counts_def
  apply_rule_def add_def start_tally_def FRAMEWORKS_def STYLES_def dep_names_def
  ordered_by_score_def py_startswith_def second_of_def walked_files_def EXCLUDED_DIRS_def
  count_file_def count_suffix_def count_module_def name_suffix_def py_lower_def
  py_lower_char_def py_endswith_def

lemmas project_defs = bare_project_def next_project_def tied_project_def no_override_def
  react_forced_def both_forced_def runs_def

lemma tie_goes_to_first_declared:
  "map_sum id fst (detect_framework tied_project) = Inr ''next''
   \<and> score_of ''next'' (t_scores (framework_tally tied_project))
       = score_of ''react'' (t_scores (framework_tally tied_project))"
  by (simp add: detect_defs project_defs score_of_def num_eval)

subsection \<open>The two axes on example projects\<close>

theorem winner_is_first_maximal_witness:
  "\<exists>c ev. detect_framework tied_project
         = Inr (''next'', c, ev, t_scores (framework_tally tied_project))
       \<and> first_maximal ''next'' (t_scores (framework_tally tied_project))
       \<and> score_of ''next'' (t_scores (framework_tally tied_project))
           = score_of ''react'' (t_scores (framework_tally tied_project))"
proof -
  from winner_is_first_maximal [of tied_project] obtain w c ev
    where d: "detect_framework tied_project = Inr (w, c, ev, t_scores (framework_tally tied_project))"
      and f: "first_maximal w (t_scores (framework_tally tied_project))"
    by blast
  have "w = ''next''" using tie_goes_to_first_declared d by simp
  then show ?thesis using d f tie_goes_to_first_declared by blast
qed

theorem framework_confidence_model_witness:
  "\<exists>ev. detect_framework next_project
       = Inr (''next'', fl (87 / 100), ev, t_scores (framework_tally next_project))
     \<and> spec_confidence ''next'' (score_of ''next'' (t_scores (framework_tally next_project)))
         (runner_up ''next'' (t_scores (framework_tally next_project))) = fl (87 / 100)"
proof -
  have v: "map_sum id (\<lambda>r. (fst r, fst (snd r))) (detect_framework next_project)
             = Inr (''next'', fl (87 / 100))"
    by (simp add: detect_defs project_defs num_eval)
  from framework_confidence_model [of next_project] obtain w ev
    where d: "detect_framework next_project =
       Inr (w,
            spec_confidence w (score_of w (t_scores (framework_tally next_project)))
              (runner_up w (t_scores (framework_tally next_project))),
            ev, t_scores (framework_tally next_project))"
    by blast
  have "w = ''next''" using v d by simp
  moreover from this have "spec_confidence ''next''
      (score_of ''next'' (t_scores (framework_tally next_project)))
      (runner_up ''next'' (t_scores (framework_tally next_project))) = fl (87 / 100)"
    using v d by simp
  ultimately show ?thesis using d by auto
qed

text \<open>
  C5. For every run of the classifier (arguments among the parser's choices, the root a
  directory), the confidence that each detector returns, the confidence of each axis
  after the overrides and the \<open>confidence\<close> field of the report all lie between 0.1 and
  0.99 and are two-decimal doubles; and after every rule of either detector, every label
  score is non-negative.
\<close>

theorem confidences_in_range:
  assumes "runs a p"
  shows "\<exists>fw st r. detect_framework p = Inr fw
           \<and> detect_style_system p (gather_source_stats (p_path p) (p_tree p) 4000) = Inr st
           \<and> detect_main a p = Exit0 r
           \<and> in_range (fst (snd fw)) \<and> two_decimal (fst (snd fw))
           \<and> in_range (snd (snd st)) \<and> two_decimal (snd (snd st))
           \<and> in_range (x_fw_confidence
                 (apply_overrides a (fst fw, fst (snd fw), fst (snd (snd fw))) st))
           \<and> two_decimal (x_fw_confidence
                 (apply_overrides a (fst fw, fst (snd fw), fst (snd (snd fw))) st))
           \<and> in_range (x_style_confidence
                 (apply_overrides a (fst fw, fst (snd fw), fst (snd (snd fw))) st))
           \<and> two_decimal (x_style_confidence
                 (apply_overrides a (fst fw, fst (snd fw), fst (snd (snd fw))) st))
           \<and> in_range (o_confidence r) \<and> two_decimal (o_confidence r)
           \<and> (\<forall>n. non_negative (t_scores (run_rules (start_tally FRAMEWORKS ''vanilla'')
                     (take n (framework_rules p)))))
           \<and> (\<forall>n stats. non_negative (t_scores (run_rules (start_tally STYLES ''css'')
                     (take n (style_rules p stats)))))"
proof -
  let ?stats = "gather_source_stats (p_path p) (p_tree p) 4000"
  obtain fw st r where fw: "detect_framework p = Inr fw"
    and st: "detect_style_system p ?stats = Inr st"
    and rf: "in_range (fst (snd fw))" "two_decimal (fst (snd fw))"
    and rs: "in_range (snd (snd st))" "two_decimal (snd (snd st))"
    and r: "detect_main a p = Exit0 r"
    and c: "o_confidence r = report_confidence
              (x_fw_confidence (apply_overrides a (fst fw, fst (snd fw), fst (snd (snd fw))) st))
              (x_style_confidence (apply_overrides a (fst fw, fst (snd fw), fst (snd (snd fw))) st))"
    using detect_main_runs [OF assms] by blast
  let ?x = "apply_overrides a (fst fw, fst (snd fw), fst (snd (snd fw))) st"
  have xf: "in_range (x_fw_confidence ?x)" "two_decimal (x_fw_confidence ?x)"
    using rf in_range_override two_decimal_consts(2) by (simp_all add: apply_overrides_framework)
  have xs: "in_range (x_style_confidence ?x)" "two_decimal (x_style_confidence ?x)"
    using rs in_range_override two_decimal_consts(2) by (simp_all add: apply_overrides_style)
  have oc: "in_range (o_confidence r)" "two_decimal (o_confidence r)"
    using report_confidence_range [OF xf(1) xs(1)] by (simp_all add: c)
  show ?thesis
    using fw st r rf rs xf xs oc scores_non_negative by blast
qed

theorem confidences_in_range_witness:
  "runs no_override next_project
   \<and> (\<exists>r. detect_main no_override next_project = Exit0 r
         \<and> in_range (o_confidence r) \<and> two_decimal (o_confidence r)
         \<and> o_confidence r = fl (7 / 10) \<and> o_framework r = ''next'')"
proof -
  have h: "runs no_override next_project" by (simp add: project_defs FRAMEWORKS_def STYLES_def)
  have v: "map_outcome o_confidence (detect_main no_override next_project) = Exit0 (fl (7 / 10))"
    "map_outcome o_framework (detect_main no_override next_project) = Exit0 ''next''"
    by (simp_all add: detect_defs project_defs num_eval)
  from confidences_in_range [OF h] obtain r
    where "detect_main no_override next_project = Exit0 r"
      and "in_range (o_confidence r)" and "two_decimal (o_confidence r)"
    by blast
  then show ?thesis using h v by auto
qed

subsection \<open>The baseline label of the framework axis\<close>

lemma add_other_label:
  "name \<noteq> w \<Longrightarrow> score_of w (t_scores (add name points reason t)) = score_of w (t_scores t)"
proof -
  have "map_of (map (\<lambda>kv. if fst kv = name then (fst kv, fl (snd kv + points)) else kv) sc) w
          = map_of sc w" if "name \<noteq> w" for sc :: scores
    using that by (induction sc) auto
  then show "name \<noteq> w \<Longrightarrow> ?thesis" by (simp add: add_def score_of_def)
qed

lemma run_rules_other_label:
  "\<forall>r\<in>set rules. fst (snd r) \<noteq> w \<Longrightarrow>
   score_of w (t_scores (run_rules t rules)) = score_of w (t_scores t)"
  unfolding run_rules_def
  by (induction rules arbitrary: t) (simp_all add: apply_rule_def add_other_label)

lemma no_rule_for_vanilla: "\<forall>r\<in>set (framework_rules p). fst (snd r) \<noteq> ''vanilla''"
  by (simp add: framework_rules_def)

lemma vanilla_stays_at_baseline:
  "score_of ''vanilla'' (t_scores (run_rules (start_tally FRAMEWORKS ''vanilla'')
      (take n (framework_rules p)))) = fl (2 / 10)"
proof -
  have "\<forall>r\<in>set (take n (framework_rules p)). fst (snd r) \<noteq> ''vanilla''"
    using no_rule_for_vanilla [of p] by (meson in_set_takeD)
  then show ?thesis
    by (simp add: run_rules_other_label) (simp add: start_tally_def FRAMEWORKS_def score_of_def)
qed

lemma vanilla_confidence: "framework_confidence ''vanilla'' (fl (2 / 10)) r = fl (35 / 100)"
proof -
  have "framework_confidence ''vanilla'' (fl (2 / 10)) r
          = max (fl (1 / 10)) (py_round (fl (35 / 100)) 2)"
    by (simp add: framework_confidence_def)
  also have "\<dots> = max (fl (1 / 10)) (fl (35 / 100))" by (simp only: round_fixed)
  also have "\<dots> = fl (35 / 100)" using const_order(1) by (simp only: max_absorb2)
  finally show ?thesis .
qed

text \<open>
  C10. For every input, no rule of framework detection adds points to vanilla: after every
  rule its score is the baseline 0.2. Hence, whenever vanilla is the winner, the
  confidence of the framework axis is 0.35; the branch for a score above the baseline is
  never taken.
\<close>

theorem vanilla_wins_with_035:
  "(\<forall>n. score_of ''vanilla'' (t_scores (run_rules (start_tally FRAMEWORKS ''vanilla'')
          (take n (framework_rules p)))) = fl (2 / 10))
   \<and> score_of ''vanilla'' (t_scores (framework_tally p)) = fl (2 / 10)
   \<and> (\<exists>w c ev. detect_framework p = Inr (w, c, ev, t_scores (framework_tally p))
         \<and> (w = ''vanilla'' \<longrightarrow> c = fl (35 / 100)))"
proof -
  let ?sc = "t_scores (framework_tally p)"
  have base: "score_of ''vanilla'' ?sc = fl (2 / 10)"
    using vanilla_stays_at_baseline [of "length (framework_rules p)" p]
    by (simp add: framework_tally_def)
  obtain best rest ev where mem: "best \<in> set ?sc"
    and d: "detect_framework p =
         Inr (fst best, framework_confidence (fst best) (snd best) (second_of rest), ev, ?sc)"
    using detect_framework_eq [of p] by blast
  have di: "distinct (map fst ?sc)" by (simp add: framework_keys labels_distinct)
  have "framework_confidence (fst best) (snd best) (second_of rest) = fl (35 / 100)"
    if "fst best = ''vanilla''"
  proof -
    have "score_of (fst best) ?sc = snd best"
      using score_of_member [OF di, of "fst best" "snd best"] mem by simp
    then have "snd best = fl (2 / 10)" using that base by simp
    then show ?thesis using that by (simp only: vanilla_confidence)
  qed
  then show ?thesis using base d vanilla_stays_at_baseline by blast
qed

theorem vanilla_wins_with_035_witness:
  "\<exists>ev. detect_framework bare_project
       = Inr (''vanilla'', fl (35 / 100), ev, t_scores (framework_tally bare_project))"
proof -
  have v: "map_sum id fst (detect_framework bare_project) = Inr ''vanilla''"
    by (simp add: detect_defs project_defs num_eval)
  from vanilla_wins_with_035 [of bare_project] obtain w c ev
    where d: "detect_framework bare_project = Inr (w, c, ev, t_scores (framework_tally bare_project))"
      and i: "w = ''vanilla'' \<longrightarrow> c = fl (35 / 100)"
    by blast
  have "w = ''vanilla''" using v d by simp
  then show ?thesis using d i by blast
qed

subsection \<open>Overrides\<close>

text \<open>
  C3, as the claim states it, fails where only one axis is overridden: with the framework
  forced to react on an empty project the style axis keeps its own confidence 0.52, and
  the report's confidence is the rounded mean 0.76, not 0.99.
\<close>

theorem single_override_reports_mean:
  "map_outcome o_confidence (detect_main react_forced bare_project) = Exit0 (fl (76 / 100))
   \<and> fl (76 / 100) < fl (99 / 100)"
  by (simp add: detect_defs project_defs num_eval)

text \<open>
  C3, amended. For every run with an explicit framework or style override, the override
  forces the winner on its axis regardless of the evidence, replaces the evidence trail of
  that axis by the single override entry and sets the confidence of that axis to 0.99.
  The confidence that the report shows is the mean of the two axis confidences, capped at
  0.99 and rounded to two decimals: it is 0.99 when both axes are overridden, and with one
  override it is the mean of 0.99 and the confidence that the other detector computed.
  The override is applied after the detectors have run: the framework scores of the
  diagnostics are those that the rules produced.
\<close>

theorem override_forces_axis:
  assumes "runs a p"
  shows "\<exists>fw st r. detect_framework p = Inr fw
           \<and> detect_style_system p (gather_source_stats (p_path p) (p_tree p) 4000) = Inr st
           \<and> detect_main a p = Exit0 r
           \<and> (a_framework a \<noteq> ''auto'' \<longrightarrow>
                 o_framework r = a_framework a
               \<and> o_evidence_framework r = [''override: framework='' @ a_framework a]
               \<and> x_fw_confidence (apply_overrides a (fst fw, fst (snd fw), fst (snd (snd fw))) st)
                   = fl (99 / 100))
           \<and> (a_style a \<noteq> ''auto'' \<longrightarrow>
                 o_style_system r = a_style a
               \<and> o_evidence_style_system r = [''override: style='' @ a_style a]
               \<and> x_style_confidence (apply_overrides a (fst fw, fst (snd fw), fst (snd (snd fw))) st)
                   = fl (99 / 100))
           \<and> (a_framework a \<noteq> ''auto'' \<and> a_style a \<noteq> ''auto'' \<longrightarrow>
                 o_confidence r = fl (99 / 100))
           \<and> (a_framework a \<noteq> ''auto'' \<and> a_style a = ''auto'' \<longrightarrow>
                 o_confidence r = report_confidence (fl (99 / 100)) (snd (snd st)))
           \<and> (a_framework a = ''auto'' \<and> a_style a \<noteq> ''auto'' \<longrightarrow>
                 o_confidence r = report_confidence (fst (snd fw)) (fl (99 / 100)))
           \<and> o_framework_scores r
               = map (\<lambda>kv. (fst kv, py_round (snd kv) 2)) (t_scores (framework_tally p))"
proof -
  let ?stats = "gather_source_stats (p_path p) (p_tree p) 4000"
  obtain fw st r where fw: "detect_framework p = Inr fw"
    and st: "detect_style_system p ?stats = Inr st"
    and r: "detect_main a p = Exit0 r"
    and o: "o_framework r
              = x_framework (apply_overrides a (fst fw, fst (snd fw), fst (snd (snd fw))) st)"
      "o_style_system r
              = x_style_system (apply_overrides a (fst fw, fst (snd fw), fst (snd (snd fw))) st)"
      "o_evidence_framework r
              = x_fw_evidence (apply_overrides a (fst fw, fst (snd fw), fst (snd (snd fw))) st)"
      "o_evidence_style_system r
              = x_style_evidence (apply_overrides a (fst fw, fst (snd fw), fst (snd (snd fw))) st)"
      "o_confidence r = report_confidence
              (x_fw_confidence (apply_overrides a (fst fw, fst (snd fw), fst (snd (snd fw))) st))
              (x_style_confidence (apply_overrides a (fst fw, fst (snd fw), fst (snd (snd fw))) st))"
      "o_framework_scores r
              = map (\<lambda>kv. (fst kv, py_round (snd kv) 2)) (t_scores (framework_tally p))"
    using detect_main_runs [OF assms] by blast
  have both: "o_confidence r = fl (99 / 100)"
    if "a_framework a \<noteq> ''auto''" "a_style a \<noteq> ''auto''"
    using that both_overridden
    by (simp add: o(5) apply_overrides_framework(2) apply_overrides_style(2))
  show ?thesis
    using fw st r both
    by (intro exI [of _ fw] exI [of _ st] exI [of _ r])
       (simp add: o apply_overrides_framework apply_overrides_style)
qed

theorem override_forces_axis_witness:
  "runs react_forced next_project \<and> runs both_forced next_project
   \<and> (\<exists>r. detect_main react_forced next_project = Exit0 r
         \<and> o_framework r = ''react''
         \<and> o_evidence_framework r = [''override: framework=react''])
   \<and> (\<exists>r. detect_main both_forced next_project = Exit0 r
         \<and> o_framework r = ''vue'' \<and> o_style_system r = ''scss''
         \<and> o_evidence_style_system r = [''override: style=scss'']
         \<and> o_confidence r = fl (99 / 100))"
proof -
  have h1: "runs react_forced next_project" and h2: "runs both_forced next_project"
    by (simp_all add: project_defs FRAMEWORKS_def STYLES_def)
  have a1: "a_framework react_forced = ''react''" "a_style react_forced = ''auto''"
    and a2: "a_framework both_forced = ''vue''" "a_style both_forced = ''scss''"
    by (simp_all add: project_defs)
  from override_forces_axis [OF h1] obtain r1
    where "detect_main react_forced next_project = Exit0 r1"
      and "o_framework r1 = ''react''"
      and "o_evidence_framework r1 = [''override: framework=react'']"
    by (auto simp: a1)
  moreover from override_forces_axis [OF h2] obtain r2
    where "detect_main both_forced next_project = Exit0 r2"
      and "o_framework r2 = ''vue''" and "o_style_system r2 = ''scss''"
      and "o_evidence_style_system r2 = [''override: style=scss'']"
      and "o_confidence r2 = fl (99 / 100)"
    by (auto simp: a2)
  ultimately show ?thesis using h1 h2 by blast
qed

end
